theory Spec2Isabelle
  imports Main "HOL-Library.Multiset"
begin

section \<open>The singly linked list \<open>atl::forward_list\<close> over an explicit node store\<close>

text \<open>
  The list of \<open>src/forward_list.tpp\<close> is a chain of heap nodes, and several of its
  operations work through pointers to pointers (\<open>Node** pos\<close>) or compare the addresses
  of list objects (\<open>this != &other\<close>).  The model therefore keeps an explicit store:
  node addresses and the identities of list objects are natural numbers, a null pointer
  is \<open>None\<close>, and the program state holds the live nodes and the \<open>head\<close> field of every
  list object.

  Every loop of the source follows \<open>next\<close> links and may run forever on a cyclic chain,
  so the loops are partial functions into \<open>option\<close>: \<open>None\<close> means that the call does not
  return.  Inside \<open>Some\<close>, a call either returns normally (\<open>Inr\<close>) or ends with an error
  (\<open>Inl\<close>): \<open>std::bad_alloc\<close> propagated out of \<open>operator new\<close>, or undefined behaviour
  (a null or dangling pointer is dereferenced, a node is destroyed twice).  The third
  error, \<open>IllFormed\<close>, marks a call whose template instantiation has no viable
  constructor and so does not compile.

  A parameter of type \<open>const Type&\<close> is a reference: to an object outside the nodes, or to
  the \<open>value\<close> member of a node.  \<open>remove\<close> and \<open>assign\<close> read their parameter after they
  have destroyed nodes, so they take the reference itself, and reading a reference into a
  destroyed node is undefined behaviour.  \<open>push_front\<close> and \<open>resize\<close> read theirs only while
  no node has been destroyed since the call, and are given the value it denotes.  Counts
  of type \<open>size_t\<close> are natural numbers.
\<close>

subsection \<open>Nodes, list objects and the store\<close>

type_synonym addr = nat

type_synonym lid = nat

record 'a fwd_list_node =
  "value" :: 'a
  "next" :: "addr option"

type_synonym 'a store = "addr \<Rightarrow> 'a fwd_list_node option"

record 'a state =
  nodes :: "'a store"
  head :: "lid \<Rightarrow> addr option"

datatype 's error = BadAlloc 's | Undefined | IllFormed

type_synonym 'a result = "'a state error + 'a state"

text \<open>
  A reference \<open>const Type&\<close> denotes an object that lives outside the nodes (a variable or
  a temporary of the caller), or the \<open>value\<close> member of the node at an address.
\<close>

datatype 'a cref = Object 'a | Element addr

definition read_ref :: "'a cref \<Rightarrow> 'a state \<Rightarrow> 'a state error + 'a" where
  "read_ref r s =
     (case r of
        Object v \<Rightarrow> Inr v
      | Element a \<Rightarrow>
          (case nodes s a of
             None \<Rightarrow> Inl Undefined
           | Some n \<Rightarrow> Inr (value n)))"

subsection \<open>The allocator\<close>

text \<open>
  \<open>atl::allocator\<close> has no data members and forwards \<open>allocate\<close> to \<open>::operator new\<close>,
  which is not part of the repository; the list takes its allocator as a template
  parameter.  The model takes it as a parameter too: a function that, given the live
  nodes, either fails (\<open>None\<close>, \<open>std::bad_alloc\<close>) or returns the address of new storage.
  Because the allocator is stateless, the \<open>alloc\<close> member that every list object carries
  is not stored, and moving or swapping it changes nothing.
\<close>

type_synonym 'a allocator = "'a store \<Rightarrow> addr option"


definition first_fit :: "nat \<Rightarrow> 'a allocator" where
  "first_fit capacity h = find (\<lambda>a. h a = None) [0..<capacity]"

subsection \<open>\<open>forward_list_base\<close>\<close>

definition allocate_node :: "'a allocator \<Rightarrow> 'a state \<Rightarrow> 'a state error + addr" where
  "allocate_node alloc s =
     (case alloc (nodes s) of
        None \<Rightarrow> Inl (BadAlloc s)
      | Some node \<Rightarrow> Inr node)"

text \<open>
  \<open>create_node\<close> constructs the value only; the \<open>next\<close> member of the raw node is
  indeterminate until the caller stores into it, which every caller does before the node
  is linked.  The model writes \<open>None\<close> there.
\<close>

definition create_node ::
  "'a allocator \<Rightarrow> 'a \<Rightarrow> 'a state \<Rightarrow> 'a state error + addr \<times> 'a state" where
  "create_node alloc v s =
     (case allocate_node alloc s of
        Inl e \<Rightarrow> Inl e
      | Inr node \<Rightarrow>
          Inr (node, s\<lparr>nodes := (nodes s)(node \<mapsto> \<lparr>value = v, next = None\<rparr>)\<rparr>))"

text \<open>
  \<open>deallocate_node\<close> releases the storage of a node, which then leaves the store;
  \<open>destroy_node\<close> destroys the value of the node and deallocates it.  Either is undefined
  behaviour on a pointer to a node that is not live.
\<close>

definition deallocate_node :: "addr \<Rightarrow> 'a state \<Rightarrow> 'a result" where
  "deallocate_node node s =
     (case nodes s node of
        None \<Rightarrow> Inl Undefined
      | Some n \<Rightarrow> Inr (s\<lparr>nodes := (nodes s)(node := None)\<rparr>))"

definition destroy_node :: "addr \<Rightarrow> 'a state \<Rightarrow> 'a result" where
  "destroy_node node s =
     (case nodes s node of
        None \<Rightarrow> Inl Undefined
      | Some n \<Rightarrow> deallocate_node node s)"

text \<open>The assignment \<open>node->next = p\<close>.\<close>

definition set_next :: "addr \<Rightarrow> addr option \<Rightarrow> 'a state \<Rightarrow> 'a result" where
  "set_next node p s =
     (case nodes s node of
        None \<Rightarrow> Inl Undefined
      | Some n \<Rightarrow> Inr (s\<lparr>nodes := (nodes s)(node \<mapsto> n\<lparr>next := p\<rparr>)\<rparr>))"

partial_function (option) clear :: "lid \<Rightarrow> 'a state \<Rightarrow> 'a result option" where
  "clear this s =
     (case head s this of
        None \<Rightarrow> Some (Inr s)
      | Some tmp \<Rightarrow>
          (case nodes s tmp of
             None \<Rightarrow> Some (Inl Undefined)
           | Some n \<Rightarrow>
               (case destroy_node tmp (s\<lparr>head := (head s)(this := next n)\<rparr>) of
                  Inl e \<Rightarrow> Some (Inl e)
                | Inr s' \<Rightarrow> clear this s')))"

subsection \<open>\<open>forward_list\<close>: element access and front insertion\<close>

definition front :: "lid \<Rightarrow> 'a state \<Rightarrow> 'a state error + 'a" where
  "front this s =
     (case head s this of
        None \<Rightarrow> Inl Undefined
      | Some h \<Rightarrow>
          (case nodes s h of
             None \<Rightarrow> Inl Undefined
           | Some n \<Rightarrow> Inr (value n)))"

text \<open>
  \<open>front\<close> returns a reference to \<open>head->value\<close>; \<open>front\<close> above is the value read through
  it, and \<open>front_ref\<close> is the reference.
\<close>

definition front_ref :: "lid \<Rightarrow> 'a state \<Rightarrow> 'a state error + 'a cref" where
  "front_ref this s =
     (case head s this of
        None \<Rightarrow> Inl Undefined
      | Some h \<Rightarrow> Inr (Element h))"

definition empty :: "lid \<Rightarrow> 'a state \<Rightarrow> bool" where
  "empty this s \<longleftrightarrow> head s this = None"

definition push_front :: "'a allocator \<Rightarrow> lid \<Rightarrow> 'a \<Rightarrow> 'a state \<Rightarrow> 'a result" where
  "push_front alloc this v s =
     (case create_node alloc v s of
        Inl e \<Rightarrow> Inl e
      | Inr (new_node, s1) \<Rightarrow>
          (case set_next new_node (head s1 this) s1 of
             Inl e \<Rightarrow> Inl e
           | Inr s2 \<Rightarrow> Inr (s2\<lparr>head := (head s2)(this := Some new_node)\<rparr>)))"


subsection \<open>Copying and moving\<close>

text \<open>The loop shared by the copy constructor and the copy assignment operator.\<close>

partial_function (option) copy_nodes ::
  "'a allocator \<Rightarrow> lid \<Rightarrow> addr option \<Rightarrow> 'a state \<Rightarrow> 'a result option" where
  "copy_nodes alloc this current s =
     (case current of
        None \<Rightarrow> Some (Inr s)
      | Some c \<Rightarrow>
          (case nodes s c of
             None \<Rightarrow> Some (Inl Undefined)
           | Some n \<Rightarrow>
               (case push_front alloc this (value n) s of
                  Inl e \<Rightarrow> Some (Inl e)
                | Inr s' \<Rightarrow>
                    (case nodes s' c of
                       None \<Rightarrow> Some (Inl Undefined)
                     | Some n' \<Rightarrow> copy_nodes alloc this (next n') s'))))"



definition copy_assign :: "'a allocator \<Rightarrow> lid \<Rightarrow> lid \<Rightarrow> 'a state \<Rightarrow> 'a result option" where
  "copy_assign alloc this other s =
     (if this \<noteq> other then
        (case clear this s of
           None \<Rightarrow> None
         | Some (Inl e) \<Rightarrow> Some (Inl e)
         | Some (Inr s1) \<Rightarrow> copy_nodes alloc this (head s1 other) s1)
      else Some (Inr s))"

definition move_assign :: "lid \<Rightarrow> lid \<Rightarrow> 'a state \<Rightarrow> 'a result option" where
  "move_assign this other s =
     (if this \<noteq> other then
        (case clear this s of
           None \<Rightarrow> None
         | Some (Inl e) \<Rightarrow> Some (Inl e)
         | Some (Inr s1) \<Rightarrow>
             (let s2 = s1\<lparr>head := (head s1)(this := head s1 other)\<rparr>
              in Some (Inr (s2\<lparr>head := (head s2)(other := None)\<rparr>))))
      else Some (Inr s))"

subsection \<open>\<open>assign\<close>, \<open>resize\<close> and \<open>swap\<close>\<close>












subsection \<open>Pointers to links\<close>

text \<open>
  A \<open>Node** pos\<close> is either \<open>&l.head\<close> for a list object \<open>l\<close> or \<open>&a->next\<close> for a node \<open>a\<close>.
\<close>

datatype place = Head_of lid | Next_of addr

definition load :: "place \<Rightarrow> 'a state \<Rightarrow> 'a state error + addr option" where
  "load pos s =
     (case pos of
        Head_of l \<Rightarrow> Inr (head s l)
      | Next_of a \<Rightarrow>
          (case nodes s a of
             None \<Rightarrow> Inl Undefined
           | Some n \<Rightarrow> Inr (next n)))"

definition store :: "place \<Rightarrow> addr option \<Rightarrow> 'a state \<Rightarrow> 'a result" where
  "store pos p s =
     (case pos of
        Head_of l \<Rightarrow> Inr (s\<lparr>head := (head s)(l := p)\<rparr>)
      | Next_of a \<Rightarrow> set_next a p s)"

subsection \<open>\<open>merge\<close> and \<open>splice_after\<close>\<close>

partial_function (option) merge_loop ::
  "lid \<Rightarrow> place \<Rightarrow> 'a::ord state \<Rightarrow> ('a state error + place \<times> 'a state) option" where
  "merge_loop other pos s =
     (case load pos s of
        Inl e \<Rightarrow> Some (Inl e)
      | Inr None \<Rightarrow> Some (Inr (pos, s))
      | Inr (Some p) \<Rightarrow>
          (case head s other of
             None \<Rightarrow> Some (Inr (pos, s))
           | Some oh \<Rightarrow>
               (case nodes s p of
                  None \<Rightarrow> Some (Inl Undefined)
                | Some pn \<Rightarrow>
                    (case nodes s oh of
                       None \<Rightarrow> Some (Inl Undefined)
                     | Some on \<Rightarrow>
                         if value pn < value on then merge_loop other (Next_of p) s
                         else
                           (let temp = oh;
                                s1 = s\<lparr>head := (head s)(other := next on)\<rparr>
                            in case load pos s1 of
                                 Inl e \<Rightarrow> Some (Inl e)
                               | Inr q \<Rightarrow>
                                   (case set_next temp q s1 of
                                      Inl e \<Rightarrow> Some (Inl e)
                                    | Inr s2 \<Rightarrow>
                                        (case store pos (Some temp) s2 of
                                           Inl e \<Rightarrow> Some (Inl e)
                                         | Inr s3 \<Rightarrow> merge_loop other pos s3)))))))"

definition merge :: "lid \<Rightarrow> lid \<Rightarrow> 'a::ord state \<Rightarrow> 'a result option" where
  "merge this other s =
     (case merge_loop other (Head_of this) s of
        None \<Rightarrow> None
      | Some (Inl e) \<Rightarrow> Some (Inl e)
      | Some (Inr (pos, s1)) \<Rightarrow>
          (case head s1 other of
             None \<Rightarrow> Some (Inr s1)
           | Some oh \<Rightarrow>
               (case store pos (Some oh) s1 of
                  Inl e \<Rightarrow> Some (Inl e)
                | Inr s2 \<Rightarrow> Some (Inr (s2\<lparr>head := (head s2)(other := None)\<rparr>)))))"



subsection \<open>\<open>remove\<close> and \<open>remove_if\<close>\<close>

text \<open>
  \<open>remove\<close> compares every node with \<open>value\<close>, which it reads through the reference each
  time, also after it has destroyed nodes.
\<close>

partial_function (option) remove_loop ::
  "'a cref \<Rightarrow> place \<Rightarrow> 'a state \<Rightarrow> 'a result option" where
  "remove_loop r pos s =
     (case load pos s of
        Inl e \<Rightarrow> Some (Inl e)
      | Inr None \<Rightarrow> Some (Inr s)
      | Inr (Some p) \<Rightarrow>
          (case nodes s p of
             None \<Rightarrow> Some (Inl Undefined)
           | Some pn \<Rightarrow>
               (case read_ref r s of
                  Inl e \<Rightarrow> Some (Inl e)
                | Inr v \<Rightarrow>
                    if value pn = v then
                      (let temp = p
                       in case store pos (next pn) s of
                            Inl e \<Rightarrow> Some (Inl e)
                          | Inr s1 \<Rightarrow>
                              (case destroy_node temp s1 of
                                 Inl e \<Rightarrow> Some (Inl e)
                               | Inr s2 \<Rightarrow> remove_loop r pos s2))
                    else remove_loop r (Next_of p) s)))"

definition remove :: "lid \<Rightarrow> 'a cref \<Rightarrow> 'a state \<Rightarrow> 'a result option" where
  "remove this r s = remove_loop r (Head_of this) s"

text \<open>\<open>remove_if\<close> takes its predicate by value.\<close>

partial_function (option) remove_if_loop ::
  "('a \<Rightarrow> bool) \<Rightarrow> place \<Rightarrow> 'a state \<Rightarrow> 'a result option" where
  "remove_if_loop pred pos s =
     (case load pos s of
        Inl e \<Rightarrow> Some (Inl e)
      | Inr None \<Rightarrow> Some (Inr s)
      | Inr (Some p) \<Rightarrow>
          (case nodes s p of
             None \<Rightarrow> Some (Inl Undefined)
           | Some pn \<Rightarrow>
               if pred (value pn) then
                 (let temp = p
                  in case store pos (next pn) s of
                       Inl e \<Rightarrow> Some (Inl e)
                     | Inr s1 \<Rightarrow>
                         (case destroy_node temp s1 of
                            Inl e \<Rightarrow> Some (Inl e)
                          | Inr s2 \<Rightarrow> remove_if_loop pred pos s2))
               else remove_if_loop pred (Next_of p) s))"

definition remove_if :: "lid \<Rightarrow> ('a \<Rightarrow> bool) \<Rightarrow> 'a state \<Rightarrow> 'a result option" where
  "remove_if this pred s = remove_if_loop pred (Head_of this) s"

subsection \<open>\<open>reverse\<close> and \<open>unique\<close>\<close>

partial_function (option) reverse_loop ::
  "addr option \<Rightarrow> addr option \<Rightarrow> 'a state \<Rightarrow> ('a state error + addr option \<times> 'a state) option"
  where
  "reverse_loop prev current s =
     (case current of
        None \<Rightarrow> Some (Inr (prev, s))
      | Some c \<Rightarrow>
          (case nodes s c of
             None \<Rightarrow> Some (Inl Undefined)
           | Some n \<Rightarrow>
               (let nxt = next n
                in case set_next c prev s of
                     Inl e \<Rightarrow> Some (Inl e)
                   | Inr s1 \<Rightarrow> reverse_loop (Some c) nxt s1)))"

definition reverse :: "lid \<Rightarrow> 'a state \<Rightarrow> 'a result option" where
  "reverse this s =
     (case reverse_loop None (head s this) s of
        None \<Rightarrow> None
      | Some (Inl e) \<Rightarrow> Some (Inl e)
      | Some (Inr (prev, s1)) \<Rightarrow> Some (Inr (s1\<lparr>head := (head s1)(this := prev)\<rparr>)))"

partial_function (option) unique_loop :: "addr option \<Rightarrow> 'a state \<Rightarrow> 'a result option" where
  "unique_loop current s =
     (case current of
        None \<Rightarrow> Some (Inr s)
      | Some c \<Rightarrow>
          (case nodes s c of
             None \<Rightarrow> Some (Inl Undefined)
           | Some cn \<Rightarrow>
               (case next cn of
                  None \<Rightarrow> Some (Inr s)
                | Some temp \<Rightarrow>
                    (case nodes s temp of
                       None \<Rightarrow> Some (Inl Undefined)
                     | Some tn \<Rightarrow>
                         if value cn = value tn then
                           (case set_next c (next tn) s of
                              Inl e \<Rightarrow> Some (Inl e)
                            | Inr s1 \<Rightarrow>
                                (case destroy_node temp s1 of
                                   Inl e \<Rightarrow> Some (Inl e)
                                 | Inr s2 \<Rightarrow> unique_loop (Some c) s2))
                         else unique_loop (next cn) s))))"

definition unique :: "lid \<Rightarrow> 'a state \<Rightarrow> 'a result option" where
  "unique this s = unique_loop (head s this) s"

subsection \<open>Sequences of \<open>push_front\<close> and \<open>pop_front\<close>\<close>





subsection \<open>The chain of a list\<close>

text \<open>
  \<open>chain h p xs\<close>: following \<open>next\<close> from the pointer \<open>p\<close> in the store \<open>h\<close> visits exactly
  the live nodes listed in \<open>xs\<close>, each given by its address and its value, and then reaches
  the null link.  This is what iterating from \<open>begin()\<close> to \<open>end()\<close> observes: the
  traversal \<open>iterate\<close> defined below returns the values of \<open>xs\<close> in order (lemma
  \<open>iterate_list_of\<close>).
\<close>

fun chain :: "'a store \<Rightarrow> addr option \<Rightarrow> (addr \<times> 'a) list \<Rightarrow> bool" where
  "chain h p [] \<longleftrightarrow> p = None"
| "chain h p ((a, v) # xs) \<longleftrightarrow>
     p = Some a \<and> (case h a of None \<Rightarrow> False | Some n \<Rightarrow> value n = v \<and> chain h (next n) xs)"

definition list_of :: "'a state \<Rightarrow> lid \<Rightarrow> (addr \<times> 'a) list \<Rightarrow> bool" where
  "list_of s l xs \<longleftrightarrow> chain (nodes s) (head s l) xs"

subsection \<open>\<open>emplace_front\<close>\<close>

text \<open>
  \<open>emplace_front\<close> hands its argument pack to \<open>this->alloc.construct\<close>.  The member
  \<open>alloc\<close> is the node allocator \<open>allocator<fwd_list_node<Type>>\<close>, and
  \<open>allocator<T>::construct(p, args...)\<close> runs \<open>::new(p) T(args...)\<close> with \<open>T\<close> the
  allocator's own element type, not the pointee of \<open>p\<close>.  So the object built at
  \<open>&new_node->value\<close>, which is the address of the node itself, is a
  \<open>fwd_list_node<Type>\<close> constructed from the pack.  That class has two constructors, the
  default one and the move constructor; a pack that matches neither has no viable
  constructor, and the call does not compile.  (\<open>create_node\<close>, used by \<open>push_front\<close>,
  constructs through \<open>value_alloc\<close>, the allocator rebound to \<open>Type\<close>.)

  An argument is an rvalue node, or an object of a type with an implicit conversion to
  \<open>fwd_list_node<Type>\<close> (given with the node that the conversion yields, which is then
  moved from), or anything else, such as a value of the element type; \<open>dflt\<close> stands for
  the value-initialised \<open>Type()\<close>.
\<close>

datatype ('a, 'b) argument =
    Node_rvalue "'a fwd_list_node"
  | Node_convertible "'a fwd_list_node"
  | Value_arg 'b

text \<open>The constructors of \<open>fwd_list_node\<close>, selected by the argument pack.\<close>

definition node_construct :: "'a \<Rightarrow> ('a, 'b) argument list \<Rightarrow> 'a fwd_list_node option" where
  "node_construct dflt args =
     (case args of
        [] \<Rightarrow> Some \<lparr>value = dflt, next = None\<rparr>
      | [Node_rvalue x] \<Rightarrow> Some \<lparr>value = value x, next = next x\<rparr>
      | [Node_convertible x] \<Rightarrow> Some \<lparr>value = value x, next = next x\<rparr>
      | _ \<Rightarrow> None)"

text \<open>\<open>allocator<fwd_list_node<Type>>::construct\<close> at the address of the node \<open>p\<close>.\<close>

definition construct ::
  "'a \<Rightarrow> addr \<Rightarrow> ('a, 'b) argument list \<Rightarrow> 'a state \<Rightarrow> 'a result" where
  "construct dflt p args s =
     (case node_construct dflt args of
        None \<Rightarrow> Inl IllFormed
      | Some n \<Rightarrow> Inr (s\<lparr>nodes := (nodes s)(p \<mapsto> n)\<rparr>))"

text \<open>
  A pack without a viable constructor is rejected when the template is instantiated,
  before anything runs; the model therefore reports it ahead of the allocation.
\<close>

definition emplace_front ::
  "'a allocator \<Rightarrow> 'a \<Rightarrow> lid \<Rightarrow> ('a, 'b) argument list \<Rightarrow> 'a state \<Rightarrow> 'a result" where
  "emplace_front alloc dflt this args s =
     (case node_construct dflt args of
        None \<Rightarrow> Inl IllFormed
      | Some n \<Rightarrow>
          (case allocate_node alloc s of
             Inl e \<Rightarrow> Inl e
           | Inr new_node \<Rightarrow>
               (case construct dflt new_node args s of
                  Inl e \<Rightarrow> Inl e
                | Inr s1 \<Rightarrow>
                    (case set_next new_node (head s1 this) s1 of
                       Inl e \<Rightarrow> Inl e
                     | Inr s2 \<Rightarrow> Inr (s2\<lparr>head := (head s2)(this := Some new_node)\<rparr>)))))"

subsection \<open>Construction, destruction and iterators\<close>



text \<open>\<open>begin\<close> and \<open>cbegin\<close>; \<open>end\<close> and \<open>cend\<close>.  An iterator is its \<open>node\<close> pointer.\<close>

definition list_begin :: "lid \<Rightarrow> 'a state \<Rightarrow> addr option" where
  "list_begin this s = head s this"

definition list_end :: "lid \<Rightarrow> 'a state \<Rightarrow> addr option" where
  "list_end this s = None"

text \<open>The iterator \<open>fwd_list_iterator\<close>: \<open>operator*\<close> reads \<open>node->value\<close> and
  \<open>operator++\<close> moves to \<open>node->next\<close>; both dereference \<open>node\<close>, which is undefined for
  a null pointer and for a pointer to a destroyed node.  \<open>operator!=\<close> compares the
  \<open>node\<close> pointers.\<close>

definition iterator_deref :: "addr option \<Rightarrow> 'a state \<Rightarrow> 'a state error + 'a" where
  "iterator_deref node s =
     (case node of
        None \<Rightarrow> Inl Undefined
      | Some a \<Rightarrow>
          (case nodes s a of
             None \<Rightarrow> Inl Undefined
           | Some n \<Rightarrow> Inr (value n)))"

definition iterator_increment :: "addr option \<Rightarrow> 'a state \<Rightarrow> 'a state error + addr option" where
  "iterator_increment node s =
     (case node of
        None \<Rightarrow> Inl Undefined
      | Some a \<Rightarrow>
          (case nodes s a of
             None \<Rightarrow> Inl Undefined
           | Some n \<Rightarrow> Inr (next n)))"

text \<open>The traversal \<open>for (auto it = l.begin(); it != l.end(); ++it)\<close> collecting \<open>*it\<close>:
  what the list iterates as.  A cyclic list is traversed forever.\<close>

partial_function (option) traverse ::
  "lid \<Rightarrow> addr option \<Rightarrow> 'a list \<Rightarrow> 'a state \<Rightarrow> ('a state error + 'a list) option" where
  "traverse this it seen s =
     (if it \<noteq> list_end this s then
        (case iterator_deref it s of
           Inl e \<Rightarrow> Some (Inl e)
         | Inr v \<Rightarrow>
             (case iterator_increment it s of
                Inl e \<Rightarrow> Some (Inl e)
              | Inr it' \<Rightarrow> traverse this it' (seen @ [v]) s))
      else Some (Inr seen))"

definition iterate :: "lid \<Rightarrow> 'a state \<Rightarrow> ('a state error + 'a list) option" where
  "iterate this s = traverse this (list_begin this s) [] s"

subsection \<open>The public operations of \<open>forward_list\<close>\<close>



subsection \<open>The structural invariant\<close>

text \<open>
  Every list object heads a chain of live nodes that ends in the null link (so it has no
  cycle), and no node belongs to the chains of two list objects.
\<close>

definition wf_state :: "'a state \<Rightarrow> bool" where
  "wf_state s \<longleftrightarrow>
     (\<exists>f. (\<forall>l. chain (nodes s) (head s l) (f l)) \<and>
          (\<forall>l l'. l \<noteq> l' \<longrightarrow> fst ` set (f l) \<inter> fst ` set (f l') = {}))"

text \<open>
  What is required of the outcome of a call.  A normal return and a propagated
  \<open>std::bad_alloc\<close> both leave a state, and that state has to satisfy the invariant;
  \<open>proper\<close> moreover excludes the two outcomes that leave no state.
\<close>

fun invariant_after :: "'a result \<Rightarrow> bool" where
  "invariant_after (Inr s') \<longleftrightarrow> wf_state s'"
| "invariant_after (Inl (BadAlloc s')) \<longleftrightarrow> wf_state s'"
| "invariant_after (Inl Undefined) \<longleftrightarrow> True"
| "invariant_after (Inl IllFormed) \<longleftrightarrow> True"

fun proper :: "'a result \<Rightarrow> bool" where
  "proper (Inr s') \<longleftrightarrow> wf_state s'"
| "proper (Inl (BadAlloc s')) \<longleftrightarrow> wf_state s'"
| "proper (Inl Undefined) \<longleftrightarrow> False"
| "proper (Inl IllFormed) \<longleftrightarrow> False"








subsection \<open>The effect of the loops on chains\<close>

text \<open>
  \<open>uniq\<close> follows the loop of \<open>unique\<close>: the current node stays and absorbs every
  following node of equal value.  \<open>unique_spec\<close> states the result in the words of the
  description instead: the first node stays, and a later node stays exactly when its
  value differs from the value of its immediate predecessor in the original chain.
\<close>

fun uniq :: "('b \<times> 'a) list \<Rightarrow> ('b \<times> 'a) list" where
  "uniq [] = []"
| "uniq [x] = [x]"
| "uniq (x # y # zs) = (if snd x = snd y then uniq (x # zs) else x # uniq (y # zs))"

definition unique_spec :: "('b \<times> 'a) list \<Rightarrow> ('b \<times> 'a) list" where
  "unique_spec xs =
     (case xs of
        [] \<Rightarrow> []
      | x # rest \<Rightarrow> x # map snd (filter (\<lambda>(prev, cur). snd cur \<noteq> snd prev) (zip xs rest)))"

text \<open>
  \<open>removed r v xs\<close> follows the loop of \<open>remove\<close> on the chain \<open>xs\<close> while the reference \<open>r\<close>
  reads as \<open>v\<close>: a node of another value stays and a node of value \<open>v\<close> is destroyed.  Once
  the node that \<open>r\<close> refers to has been destroyed, the loop either finds the end of the
  chain, or reads a destroyed node in the next comparison (\<open>None\<close>).
\<close>

fun removed :: "'a cref \<Rightarrow> 'a \<Rightarrow> (addr \<times> 'a) list \<Rightarrow> (addr \<times> 'a) list option" where
  "removed r v [] = Some []"
| "removed r v ((c, w) # ys) =
     (if w = v then
        (if r = Element c then (if ys = [] then Some [] else None) else removed r v ys)
      else map_option (Cons (c, w)) (removed r v ys))"

text \<open>The reference \<open>r\<close> denotes the value of one of the nodes of \<open>xs\<close>.\<close>

fun refers_into :: "'a cref \<Rightarrow> (addr \<times> 'a) list \<Rightarrow> bool" where
  "refers_into (Object v) xs \<longleftrightarrow> False"
| "refers_into (Element a) xs \<longleftrightarrow> a \<in> fst ` set xs"

text \<open>
  \<open>merge_lists xs ys\<close> follows the loop of \<open>merge\<close> on the chain \<open>xs\<close> that starts at
  \<open>*pos\<close> and the chain \<open>ys\<close> of \<open>other\<close>: while the first node of \<open>xs\<close> is smaller, \<open>pos\<close>
  moves behind it; otherwise the first node of \<open>ys\<close> is put in front of it, and the next
  comparison is with that inserted node.  \<open>before a b zs\<close> says that \<open>a\<close> occurs in \<open>zs\<close>
  and \<open>b\<close> occurs behind its first occurrence.
\<close>

function merge_lists :: "('b \<times> 'a::ord) list \<Rightarrow> ('b \<times> 'a) list \<Rightarrow> ('b \<times> 'a) list" where
  "merge_lists [] ys = ys"
| "merge_lists (x # xs) [] = x # xs"
| "merge_lists (x # xs) (y # ys) =
     (if snd x < snd y then x # merge_lists xs (y # ys) else merge_lists (y # x # xs) ys)"
  by pat_completeness auto
termination
  by (relation "measure (\<lambda>(xs, ys). length xs + 2 * length ys)") auto

fun before :: "'b \<Rightarrow> 'b \<Rightarrow> 'b list \<Rightarrow> bool" where
  "before a b [] \<longleftrightarrow> False"
| "before a b (z # zs) \<longleftrightarrow> (if z = a then b \<in> set zs else before a b zs)"

subsection \<open>Auxiliary notions for the proofs\<close>

text \<open>The place \<open>pos\<close> is not a link inside one of the nodes of \<open>xs\<close>.\<close>

definition outside :: "place \<Rightarrow> (addr \<times> 'a) list \<Rightarrow> bool" where
  "outside pos xs \<longleftrightarrow> (\<forall>a. pos = Next_of a \<longrightarrow> a \<notin> fst ` set xs)"


text \<open>The loop of \<open>merge\<close> together with the statement after it, from any place.\<close>

definition merge_from :: "lid \<Rightarrow> place \<Rightarrow> 'a::ord state \<Rightarrow> 'a result option" where
  "merge_from other pos s =
     (case merge_loop other pos s of
        None \<Rightarrow> None
      | Some (Inl e) \<Rightarrow> Some (Inl e)
      | Some (Inr (pos', s1)) \<Rightarrow>
          (case head s1 other of
             None \<Rightarrow> Some (Inr s1)
           | Some oh \<Rightarrow>
               (case store pos' (Some oh) s1 of
                  Inl e \<Rightarrow> Some (Inl e)
                | Inr s2 \<Rightarrow> Some (Inr (s2\<lparr>head := (head s2)(other := None)\<rparr>)))))"

subsection \<open>Example states\<close>

text \<open>
  The empty store; list 0 holding \<open>[1,2,3]\<close>; list 0 holding \<open>[1,1,2,2,2,3,1]\<close>; list 0
  holding \<open>[1,2,1,1]\<close>; lists 0 and 1 holding \<open>[1,3,5]\<close> and \<open>[2,3,4]\<close>, and the state
  after merging them.
\<close>

definition empty_state :: "int state" where
  "empty_state = \<lparr>nodes = (\<lambda>a. None), head = (\<lambda>l. None)\<rparr>"

definition example_123 :: "int state" where
  "example_123 =
     \<lparr>nodes = (\<lambda>a. None)(10 \<mapsto> \<lparr>value = 1, next = Some 11\<rparr>,
                          11 \<mapsto> \<lparr>value = 2, next = Some 12\<rparr>,
                          12 \<mapsto> \<lparr>value = 3, next = None\<rparr>),
      head = (\<lambda>l. None)(0 := Some 10)\<rparr>"


definition example_1122231 :: "int state" where
  "example_1122231 =
     \<lparr>nodes = (\<lambda>a. None)(20 \<mapsto> \<lparr>value = 1, next = Some 21\<rparr>,
                          21 \<mapsto> \<lparr>value = 1, next = Some 22\<rparr>,
                          22 \<mapsto> \<lparr>value = 2, next = Some 23\<rparr>,
                          23 \<mapsto> \<lparr>value = 2, next = Some 24\<rparr>,
                          24 \<mapsto> \<lparr>value = 2, next = Some 25\<rparr>,
                          25 \<mapsto> \<lparr>value = 3, next = Some 26\<rparr>,
                          26 \<mapsto> \<lparr>value = 1, next = None\<rparr>),
      head = (\<lambda>l. None)(0 := Some 20)\<rparr>"

definition example_1211 :: "int state" where
  "example_1211 =
     \<lparr>nodes = (\<lambda>a. None)(40 \<mapsto> \<lparr>value = 1, next = Some 41\<rparr>,
                          41 \<mapsto> \<lparr>value = 2, next = Some 42\<rparr>,
                          42 \<mapsto> \<lparr>value = 1, next = Some 43\<rparr>,
                          43 \<mapsto> \<lparr>value = 1, next = None\<rparr>),
      head = (\<lambda>l. None)(0 := Some 40)\<rparr>"

definition example_merge :: "int state" where
  "example_merge =
     \<lparr>nodes = (\<lambda>a. None)(50 \<mapsto> \<lparr>value = 1, next = Some 51\<rparr>,
                          51 \<mapsto> \<lparr>value = 3, next = Some 52\<rparr>,
                          52 \<mapsto> \<lparr>value = 5, next = None\<rparr>,
                          60 \<mapsto> \<lparr>value = 2, next = Some 61\<rparr>,
                          61 \<mapsto> \<lparr>value = 3, next = Some 62\<rparr>,
                          62 \<mapsto> \<lparr>value = 4, next = None\<rparr>),
      head = (\<lambda>l. None)(0 := Some 50, 1 := Some 60)\<rparr>"

definition example_merged :: "int state" where
  "example_merged =
     \<lparr>nodes = (\<lambda>a. None)(50 \<mapsto> \<lparr>value = 1, next = Some 60\<rparr>,
                          51 \<mapsto> \<lparr>value = 3, next = Some 62\<rparr>,
                          52 \<mapsto> \<lparr>value = 5, next = None\<rparr>,
                          60 \<mapsto> \<lparr>value = 2, next = Some 61\<rparr>,
                          61 \<mapsto> \<lparr>value = 3, next = Some 51\<rparr>,
                          62 \<mapsto> \<lparr>value = 4, next = Some 52\<rparr>),
      head = (\<lambda>l. None)(0 := Some 50, 1 := None)\<rparr>"

section \<open>Properties\<close>

subsection \<open>Chains\<close>

lemma chain_Cons:
  "chain h p ((a, v) # xs) \<longleftrightarrow>
     p = Some a \<and> (\<exists>n. h a = Some n \<and> value n = v \<and> chain h (next n) xs)"
  by (simp split: option.splits)

declare chain.simps(2) [simp del]

declare chain_Cons [simp]

lemma chain_allocated: "chain h p xs \<Longrightarrow> a \<in> fst ` set xs \<Longrightarrow> h a \<noteq> None"
proof (induction xs arbitrary: p)
  case Nil
  then show ?case by simp
next
  case (Cons x xs)
  obtain b v where x: "x = (b, v)" by (cases x)
  from Cons.prems(1) x obtain n where n: "h b = Some n" and t: "chain h (next n) xs"
    by auto
  show ?case
  proof (cases "a = b")
    case True
    then show ?thesis using n by simp
  next
    case False
    then have "a \<in> fst ` set xs" using Cons.prems(2) x by auto
    with Cons.IH [OF t] show ?thesis by blast
  qed
qed

text \<open>A chain depends only on the nodes it visits.\<close>

lemma chain_frame:
  "(\<And>a. a \<in> fst ` set xs \<Longrightarrow> h' a = h a) \<Longrightarrow> chain h' p xs = chain h p xs"
proof (induction xs arbitrary: p)
  case Nil
  show ?case by simp
next
  case (Cons x xs)
  obtain a v where x: "x = (a, v)" by (cases x)
  have "h' a = h a" using Cons.prems [of a] by (simp add: x)
  moreover have "\<And>q. chain h' q xs = chain h q xs"
    using Cons.IH Cons.prems by simp
  ultimately show ?case by (simp add: x)
qed

lemma chain_upd_other:
  "a \<notin> fst ` set xs \<Longrightarrow> chain (h(a := y)) p xs = chain h p xs"
  by (rule chain_frame) auto

lemma chain_unique: "chain h p xs \<Longrightarrow> chain h p ys \<Longrightarrow> xs = ys"
proof (induction xs arbitrary: p ys)
  case Nil
  then show ?case by (cases ys) auto
next
  case (Cons x xs)
  then show ?case by (cases ys; cases x) auto
qed

text \<open>No cycles: a node does not occur again behind itself.\<close>

lemma chain_head_notin_tail:
  assumes "h a = Some n" "chain h (next n) xs"
  shows "a \<notin> fst ` set xs"
proof
  assume "a \<in> fst ` set xs"
  then obtain v where "(a, v) \<in> set xs" by auto
  then obtain us vs where xs: "xs = us @ (a, v) # vs"
    by (auto simp: in_set_conv_decomp)
  have "\<And>p. chain h p (us @ (a, v) # vs) \<Longrightarrow> chain h (next n) vs"
    using assms(1) by (induction us) auto
  then have "chain h (next n) vs" using assms(2) xs by blast
  with assms(2) have "xs = vs" by (rule chain_unique)
  with xs show False by simp
qed

lemma chain_distinct: "chain h p xs \<Longrightarrow> distinct (map fst xs)"
proof (induction xs arbitrary: p)
  case Nil
  then show ?case by simp
next
  case (Cons x xs)
  obtain b v where x: "x = (b, v)" by (cases x)
  from Cons.prems x obtain n where n: "h b = Some n" and t: "chain h (next n) xs"
    by auto
  have "b \<notin> fst ` set xs" using n t by (rule chain_head_notin_tail)
  with Cons.IH [OF t] show ?case by (simp add: x)
qed

lemma chain_member:
  "chain h p xs \<Longrightarrow> (a, w) \<in> set xs \<Longrightarrow> \<exists>m. h a = Some m \<and> value m = w"
proof (induction xs arbitrary: p)
  case Nil
  then show ?case by simp
next
  case (Cons x xs)
  obtain b v where x: "x = (b, v)" by (cases x)
  from Cons.prems(1) x obtain n where n: "h b = Some n" "value n = v"
    and t: "chain h (next n) xs"
    by auto
  show ?case
  proof (cases "(a, w) = x")
    case True
    then show ?thesis using n x by simp
  next
    case False
    then have "(a, w) \<in> set xs" using Cons.prems(2) by simp
    from Cons.IH [OF t this] show ?thesis .
  qed
qed

text \<open>A list that heads the chain \<open>xs\<close> iterates as the values of \<open>xs\<close>, in order.\<close>

lemma traverse_chain:
  "chain (nodes s) it xs \<Longrightarrow> traverse this it seen s = Some (Inr (seen @ map snd xs))"
proof (induction xs arbitrary: it seen)
  case Nil
  then show ?case by (subst traverse.simps) (simp add: list_end_def)
next
  case (Cons x xs)
  obtain a v where x: "x = (a, v)" by (cases x)
  from Cons.prems x obtain n where it: "it = Some a" and n: "nodes s a = Some n"
    and v: "value n = v" and t: "chain (nodes s) (next n) xs"
    by auto
  have "traverse this it seen s = traverse this (next n) (seen @ [v]) s"
    by (subst traverse.simps)
      (simp add: it n v list_end_def iterator_deref_def iterator_increment_def)
  with Cons.IH [OF t, of "seen @ [v]"] show ?case using x by simp
qed

lemma iterate_list_of: "list_of s this xs \<Longrightarrow> iterate this s = Some (Inr (map snd xs))"
  using traverse_chain [of s "head s this" xs this "[]"]
  by (simp add: iterate_def list_begin_def list_of_def)

lemma iterate_values:
  "list_of s this xs \<Longrightarrow> map snd xs = vs \<Longrightarrow> iterate this s = Some (Inr vs)"
  using iterate_list_of [of s this xs] by simp

subsection \<open>The allocator\<close>



subsection \<open>\<open>push_front\<close> and \<open>pop_front\<close>\<close>








subsection \<open>Self-assignment\<close>

text \<open>
  C10.  Copy-assigning or move-assigning a list to itself returns normally and leaves the
  whole state, and so the list's element sequence, unchanged: the guard \<open>this != &other\<close>
  skips the path that clears the list.
\<close>

theorem self_assignment_unchanged:
  "copy_assign alloc this this s = Some (Inr s) \<and> move_assign this this s = Some (Inr s)"
  by (simp add: copy_assign_def move_assign_def)

subsection \<open>\<open>reverse\<close>\<close>

lemma set_next_Some:
  "nodes s a = Some n \<Longrightarrow> set_next a p s = Inr (s\<lparr>nodes := (nodes s)(a \<mapsto> n\<lparr>next := p\<rparr>)\<rparr>)"
  by (simp add: set_next_def)

lemma reverse_loop_chain:
  "chain (nodes s) prev acc \<Longrightarrow> chain (nodes s) current xs \<Longrightarrow>
   fst ` set acc \<inter> fst ` set xs = {} \<Longrightarrow>
   \<exists>p' s'. reverse_loop prev current s = Some (Inr (p', s')) \<and>
     chain (nodes s') p' (rev xs @ acc) \<and> head s' = head s \<and>
     (\<forall>a. a \<notin> fst ` set xs \<longrightarrow> nodes s' a = nodes s a)"
proof (induction xs arbitrary: prev acc current s)
  case Nil
  then show ?case by (subst reverse_loop.simps) simp
next
  case (Cons x ys)
  obtain c v where x: "x = (c, v)" by (cases x)
  from Cons.prems(2) x obtain n where cur: "current = Some c" and n: "nodes s c = Some n"
    and v: "value n = v" and ys: "chain (nodes s) (next n) ys"
    by auto
  let ?s1 = "s\<lparr>nodes := (nodes s)(c \<mapsto> n\<lparr>next := prev\<rparr>)\<rparr>"
  have c_ys: "c \<notin> fst ` set ys" using n ys by (rule chain_head_notin_tail)
  have c_acc: "c \<notin> fst ` set acc" using Cons.prems(3) x by auto
  have acc1: "chain (nodes ?s1) (Some c) ((c, v) # acc)"
    using Cons.prems(1) c_acc v by (simp add: chain_upd_other)
  have ys1: "chain (nodes ?s1) (next n) ys"
    using ys c_ys by (simp add: chain_upd_other)
  have dis: "fst ` set ((c, v) # acc) \<inter> fst ` set ys = {}"
    using Cons.prems(3) c_ys x by auto
  from Cons.IH [OF acc1 ys1 dis] obtain p' s' where
    r: "reverse_loop (Some c) (next n) ?s1 = Some (Inr (p', s'))"
    and c': "chain (nodes s') p' (rev ys @ (c, v) # acc)"
    and h': "head s' = head ?s1"
    and f': "\<forall>a. a \<notin> fst ` set ys \<longrightarrow> nodes s' a = nodes ?s1 a"
    by blast
  have "reverse_loop prev current s = Some (Inr (p', s'))"
    by (subst reverse_loop.simps) (simp add: cur n set_next_Some r)
  moreover have "chain (nodes s') p' (rev (x # ys) @ acc)" using c' x by simp
  moreover have "head s' = head s" using h' by simp
  moreover have "\<forall>a. a \<notin> fst ` set (x # ys) \<longrightarrow> nodes s' a = nodes s a"
    using f' x by auto
  ultimately show ?case by blast
qed

lemma reverse_chain:
  assumes "chain (nodes s) (head s this) xs"
  shows "\<exists>s'. reverse this s = Some (Inr s') \<and> chain (nodes s') (head s' this) (rev xs) \<and>
    (\<forall>l. l \<noteq> this \<longrightarrow> head s' l = head s l) \<and>
    (\<forall>a. a \<notin> fst ` set xs \<longrightarrow> nodes s' a = nodes s a)"
proof -
  have "chain (nodes s) None []" by simp
  from reverse_loop_chain [OF this assms] obtain p' s' where
    "reverse_loop None (head s this) s = Some (Inr (p', s'))"
    "chain (nodes s') p' (rev xs)" "head s' = head s"
    "\<forall>a. a \<notin> fst ` set xs \<longrightarrow> nodes s' a = nodes s a"
    by auto
  then show ?thesis by (simp add: reverse_def)
qed

lemma chain_start:
  "chain h p xs \<Longrightarrow> p = (case xs of [] \<Rightarrow> None | x # _ \<Rightarrow> Some (fst x))"
  by (cases xs) auto

lemma chain_same_nodes:
  "chain h p xs \<Longrightarrow> chain h' p xs \<Longrightarrow> a \<in> fst ` set xs \<Longrightarrow> h' a = h a"
proof (induction xs arbitrary: p)
  case Nil
  then show ?case by simp
next
  case (Cons x ys)
  obtain c v where x: "x = (c, v)" by (cases x)
  from Cons.prems(1) x obtain n where n: "h c = Some n" "value n = v" "chain h (next n) ys"
    by auto
  from Cons.prems(2) x obtain n' where n': "h' c = Some n'" "value n' = v" "chain h' (next n') ys"
    by auto
  have nx: "next n' = next n"
    using chain_start [OF n(3)] chain_start [OF n'(3)] by simp
  show ?case
  proof (cases "a = c")
    case True
    have "n' = n" using n(2) n'(2) nx by simp
    then show ?thesis using True n(1) n'(1) by simp
  next
    case False
    then have "a \<in> fst ` set ys" using Cons.prems(3) x by auto
    from Cons.IH [OF n(3) _ this] n'(3) nx show ?thesis by simp
  qed
qed

lemma reverse_twice:
  assumes "chain (nodes s) (head s this) xs"
  shows "\<exists>s'. reverse this s = Some (Inr s') \<and> chain (nodes s') (head s' this) (rev xs) \<and>
     reverse this s' = Some (Inr s)"
proof -
  from reverse_chain [OF assms] obtain s' where
    1: "reverse this s = Some (Inr s')" "chain (nodes s') (head s' this) (rev xs)"
    "\<forall>l. l \<noteq> this \<longrightarrow> head s' l = head s l"
    "\<forall>a. a \<notin> fst ` set xs \<longrightarrow> nodes s' a = nodes s a"
    by blast
  from reverse_chain [OF 1(2)] obtain s'' where
    2: "reverse this s' = Some (Inr s'')" "chain (nodes s'') (head s'' this) xs"
    "\<forall>l. l \<noteq> this \<longrightarrow> head s'' l = head s' l"
    "\<forall>a. a \<notin> fst ` set (rev xs) \<longrightarrow> nodes s'' a = nodes s' a"
    by auto
  have hd: "head s'' this = head s this"
    using chain_start [OF 2(2)] chain_start [OF assms] by simp
  have "head s'' = head s"
  proof
    fix l show "head s'' l = head s l" using hd 1(3) 2(3) by (cases "l = this") auto
  qed
  moreover have "nodes s'' = nodes s"
  proof
    fix a show "nodes s'' a = nodes s a"
    proof (cases "a \<in> fst ` set xs")
      case True
      from 2(2) hd have "chain (nodes s'') (head s this) xs" by simp
      from chain_same_nodes [OF assms this True] show ?thesis .
    next
      case False
      then show ?thesis using 1(4) 2(4) by simp
    qed
  qed
  ultimately have "s'' = s" by simp
  with 1 2 show ?thesis by blast
qed

text \<open>
  C6.  On a well-formed list, \<open>reverse\<close> returns normally and the list then holds the
  same nodes in the opposite order, so it iterates as the reversed values.  Reversing again gives back the very state the first
  call started from, so the original order is restored.  On an empty list \<open>reverse\<close>
  changes nothing.
\<close>

theorem reverse_involution:
  assumes "list_of s this xs"
  shows "(\<exists>s'. reverse this s = Some (Inr s') \<and> list_of s' this (rev xs) \<and>
            iterate this s' = Some (Inr (rev (map snd xs))) \<and>
            reverse this s' = Some (Inr s)) \<and>
         (empty this s \<longrightarrow> reverse this s = Some (Inr s))"
proof -
  have e: "empty this s \<longrightarrow> reverse this s = Some (Inr s)"
    by (auto simp: empty_def reverse_def reverse_loop.simps fun_upd_idem)
  from reverse_twice [of s this xs] assms obtain s' where
    r: "reverse this s = Some (Inr s')" and l: "list_of s' this (rev xs)"
    and b: "reverse this s' = Some (Inr s)"
    by (auto simp: list_of_def)
  from l have i: "iterate this s' = Some (Inr (rev (map snd xs)))"
    by (rule iterate_values) (simp add: rev_map)
  from r l i b e show ?thesis by blast
qed

theorem reverse_involution_witness:
  "list_of example_123 0 [(10, 1), (11, 2), (12, 3)] \<and>
   (\<exists>s'. reverse 0 example_123 = Some (Inr s') \<and> list_of s' 0 [(12, 3), (11, 2), (10, 1)] \<and>
      iterate 0 s' = Some (Inr [3, 2, 1]) \<and>
      reverse 0 s' = Some (Inr example_123)) \<and>
   empty 1 example_123 \<and> reverse 1 example_123 = Some (Inr example_123)"
proof -
  have l: "list_of example_123 0 [(10, 1), (11, 2), (12, 3)]"
    by (simp add: list_of_def example_123_def)
  have e: "empty 1 example_123" by (simp add: empty_def example_123_def)
  from reverse_involution [OF l] reverse_involution [of example_123 1 "[]"] l e
  show ?thesis by (simp add: list_of_def example_123_def empty_def)
qed

subsection \<open>\<open>remove\<close> and \<open>remove_if\<close>\<close>

text \<open>What a store through \<open>pos\<close> changes.\<close>

lemma store_effect:
  assumes "load pos s = Inr p"
  shows "\<exists>s1. store pos q s = Inr s1 \<and> load pos s1 = Inr q \<and>
    (\<forall>a. pos \<noteq> Next_of a \<longrightarrow> nodes s1 a = nodes s a) \<and>
    (\<forall>a. pos = Next_of a \<longrightarrow> (\<exists>m. nodes s a = Some m \<and> nodes s1 a = Some (m\<lparr>next := q\<rparr>))) \<and>
    (\<forall>l. pos \<noteq> Head_of l \<longrightarrow> head s1 l = head s l)"
proof (cases pos)
  case (Head_of l)
  then show ?thesis by (simp add: store_def load_def)
next
  case (Next_of a)
  with assms obtain m where "nodes s a = Some m"
    by (auto simp: load_def split: option.splits)
  then show ?thesis using Next_of by (simp add: store_def load_def set_next_def)
qed

lemma load_frame:
  assumes "\<forall>a. pos = Next_of a \<longrightarrow> nodes s' a = nodes s a"
    and "\<forall>l. pos = Head_of l \<longrightarrow> head s' l = head s l"
  shows "load pos s' = load pos s"
  using assms by (cases pos) (simp_all add: load_def)

lemma removal_loop:
  fixes f :: "place \<Rightarrow> 'a state \<Rightarrow> 'a result option"
  assumes unfold: "\<And>pos s. f pos s =
     (case load pos s of
        Inl e \<Rightarrow> Some (Inl e)
      | Inr None \<Rightarrow> Some (Inr s)
      | Inr (Some p) \<Rightarrow>
          (case nodes s p of
             None \<Rightarrow> Some (Inl Undefined)
           | Some pn \<Rightarrow>
               if test (value pn) then
                 (let temp = p
                  in case store pos (next pn) s of
                       Inl e \<Rightarrow> Some (Inl e)
                     | Inr s1 \<Rightarrow>
                         (case destroy_node temp s1 of
                            Inl e \<Rightarrow> Some (Inl e)
                          | Inr s2 \<Rightarrow> f pos s2))
               else f (Next_of p) s))"
  shows "load pos s = Inr p \<Longrightarrow> chain (nodes s) p xs \<Longrightarrow> outside pos xs \<Longrightarrow>
    \<exists>s' p'. f pos s = Some (Inr s') \<and> load pos s' = Inr p' \<and>
      chain (nodes s') p' (filter (\<lambda>x. \<not> test (snd x)) xs) \<and>
      (\<forall>a. a \<notin> fst ` set xs \<and> pos \<noteq> Next_of a \<longrightarrow> nodes s' a = nodes s a) \<and>
      (\<forall>a. pos = Next_of a \<longrightarrow> (\<exists>m. nodes s a = Some m \<and> nodes s' a = Some (m\<lparr>next := p'\<rparr>))) \<and>
      (\<forall>l. pos \<noteq> Head_of l \<longrightarrow> head s' l = head s l) \<and>
      (\<forall>x\<in>set xs. test (snd x) \<longrightarrow> nodes s' (fst x) = None)"
proof (induction xs arbitrary: pos s p)
  case Nil
  then have p: "p = None" by simp
  have "f pos s = Some (Inr s)" by (subst unfold) (simp add: Nil.prems(1) p)
  moreover have "\<forall>a. pos = Next_of a \<longrightarrow> (\<exists>m. nodes s a = Some m \<and> nodes s a = Some (m\<lparr>next := p\<rparr>))"
    using Nil.prems(1) by (auto simp: load_def split: option.splits)
  ultimately show ?case using Nil.prems(1) p by auto
next
  case (Cons x ys)
  obtain c v where x: "x = (c, v)" by (cases x)
  from Cons.prems(2) x obtain n where p: "p = Some c" and n: "nodes s c = Some n"
    and v: "value n = v" and ys: "chain (nodes s) (next n) ys"
    by auto
  have c_ys: "c \<notin> fst ` set ys" using n ys by (rule chain_head_notin_tail)
  have pos_c: "pos \<noteq> Next_of c" using Cons.prems(3) x by (auto simp: outside_def)
  have pos_ys: "outside pos ys" using Cons.prems(3) by (auto simp: outside_def)
  show ?case
  proof (cases "test v")
    case True
    from store_effect [OF Cons.prems(1), of "next n"] obtain s1 where
      s1: "store pos (next n) s = Inr s1" and l1: "load pos s1 = Inr (next n)"
      and n1: "\<forall>a. pos \<noteq> Next_of a \<longrightarrow> nodes s1 a = nodes s a"
      and m1: "\<forall>a. pos = Next_of a \<longrightarrow>
                 (\<exists>m. nodes s a = Some m \<and> nodes s1 a = Some (m\<lparr>next := next n\<rparr>))"
      and h1: "\<forall>l. pos \<noteq> Head_of l \<longrightarrow> head s1 l = head s l"
      by blast
    let ?s2 = "s1\<lparr>nodes := (nodes s1)(c := None)\<rparr>"
    have c1: "nodes s1 c = Some n" using n1 pos_c n by simp
    then have d: "destroy_node c s1 = Inr ?s2" by (simp add: destroy_node_def deallocate_node_def)
    have l2: "load pos ?s2 = Inr (next n)"
    proof -
      have "load pos ?s2 = load pos s1"
        using pos_c by (intro load_frame) auto
      then show ?thesis using l1 by simp
    qed
    have ys2: "chain (nodes ?s2) (next n) ys"
    proof -
      have "chain (nodes ?s2) (next n) ys = chain (nodes s) (next n) ys"
      proof (rule chain_frame)
        fix a assume a: "a \<in> fst ` set ys"
        then have "a \<noteq> c" using c_ys by auto
        moreover have "pos \<noteq> Next_of a" using pos_ys a by (auto simp: outside_def)
        ultimately show "nodes ?s2 a = nodes s a" using n1 by simp
      qed
      then show ?thesis using ys by simp
    qed
    from Cons.IH [OF l2 ys2 pos_ys] obtain s' p' where
      r: "f pos ?s2 = Some (Inr s')" and l': "load pos s' = Inr p'"
      and c': "chain (nodes s') p' (filter (\<lambda>x. \<not> test (snd x)) ys)"
      and n': "\<forall>a. a \<notin> fst ` set ys \<and> pos \<noteq> Next_of a \<longrightarrow> nodes s' a = nodes ?s2 a"
      and m': "\<forall>a. pos = Next_of a \<longrightarrow>
                 (\<exists>m. nodes ?s2 a = Some m \<and> nodes s' a = Some (m\<lparr>next := p'\<rparr>))"
      and h': "\<forall>l. pos \<noteq> Head_of l \<longrightarrow> head s' l = head ?s2 l"
      and g': "\<forall>x\<in>set ys. test (snd x) \<longrightarrow> nodes s' (fst x) = None"
      by blast
    have "f pos s = Some (Inr s')"
      by (subst unfold) (simp add: Cons.prems(1) p n v True s1 d r)
    moreover have "chain (nodes s') p' (filter (\<lambda>x. \<not> test (snd x)) (x # ys))"
      using c' True x by simp
    moreover have "\<forall>a. a \<notin> fst ` set (x # ys) \<and> pos \<noteq> Next_of a \<longrightarrow> nodes s' a = nodes s a"
      using n' n1 x by auto
    moreover have "\<forall>a. pos = Next_of a \<longrightarrow>
        (\<exists>m. nodes s a = Some m \<and> nodes s' a = Some (m\<lparr>next := p'\<rparr>))"
    proof (intro allI impI)
      fix a assume a: "pos = Next_of a"
      then have ac: "a \<noteq> c" using pos_c by auto
      from m1 a obtain m where m: "nodes s a = Some m" "nodes s1 a = Some (m\<lparr>next := next n\<rparr>)"
        by blast
      from m' a obtain m2 where m2: "nodes ?s2 a = Some m2" "nodes s' a = Some (m2\<lparr>next := p'\<rparr>)"
        by blast
      from m(2) m2(1) ac have "m2 = m\<lparr>next := next n\<rparr>" by simp
      then show "\<exists>m. nodes s a = Some m \<and> nodes s' a = Some (m\<lparr>next := p'\<rparr>)"
        using m(1) m2(2) by simp
    qed
    moreover have "\<forall>l. pos \<noteq> Head_of l \<longrightarrow> head s' l = head s l"
      using h' h1 by simp
    moreover have "\<forall>y\<in>set (x # ys). test (snd y) \<longrightarrow> nodes s' (fst y) = None"
    proof -
      have "nodes s' c = nodes ?s2 c" using n' c_ys pos_c by blast
      then have "nodes s' c = None" by simp
      then show ?thesis using g' x by simp
    qed
    ultimately show ?thesis using l' by blast
  next
    case False
    have l2: "load (Next_of c) s = Inr (next n)" using n by (simp add: load_def)
    have o2: "outside (Next_of c) ys" using c_ys by (simp add: outside_def)
    from Cons.IH [OF l2 ys o2] obtain s' p' where
      r: "f (Next_of c) s = Some (Inr s')" and l': "load (Next_of c) s' = Inr p'"
      and c': "chain (nodes s') p' (filter (\<lambda>x. \<not> test (snd x)) ys)"
      and n': "\<forall>a. a \<notin> fst ` set ys \<and> Next_of c \<noteq> Next_of a \<longrightarrow> nodes s' a = nodes s a"
      and m': "\<forall>a. Next_of c = Next_of a \<longrightarrow>
                 (\<exists>m. nodes s a = Some m \<and> nodes s' a = Some (m\<lparr>next := p'\<rparr>))"
      and h': "\<forall>l. Next_of c \<noteq> Head_of l \<longrightarrow> head s' l = head s l"
      and g': "\<forall>x\<in>set ys. test (snd x) \<longrightarrow> nodes s' (fst x) = None"
      by blast
    have nc': "nodes s' c = Some (n\<lparr>next := p'\<rparr>)" using m' n by auto
    have hd': "head s' = head s" using h' by auto
    have "f pos s = Some (Inr s')"
      by (subst unfold) (simp add: Cons.prems(1) p n v False r)
    moreover have "load pos s' = Inr (Some c)"
    proof -
      have "load pos s' = load pos s"
      proof (rule load_frame)
        show "\<forall>a. pos = Next_of a \<longrightarrow> nodes s' a = nodes s a"
          using n' Cons.prems(3) x by (auto simp: outside_def)
        show "\<forall>l. pos = Head_of l \<longrightarrow> head s' l = head s l" using hd' by simp
      qed
      then show ?thesis using Cons.prems(1) p by simp
    qed
    moreover have "chain (nodes s') (Some c) (filter (\<lambda>x. \<not> test (snd x)) (x # ys))"
      using c' False x nc' v by simp
    moreover have "\<forall>a. a \<notin> fst ` set (x # ys) \<and> pos \<noteq> Next_of a \<longrightarrow> nodes s' a = nodes s a"
      using n' x by auto
    moreover have "\<forall>a. pos = Next_of a \<longrightarrow>
        (\<exists>m. nodes s a = Some m \<and> nodes s' a = Some (m\<lparr>next := Some c\<rparr>))"
    proof (intro allI impI)
      fix a assume a: "pos = Next_of a"
      then have "a \<notin> fst ` set (x # ys)" using Cons.prems(3) by (simp add: outside_def)
      then have "nodes s' a = nodes s a" using n' x by auto
      moreover from Cons.prems(1) a p obtain m where "nodes s a = Some m" "next m = Some c"
        by (auto simp: load_def split: option.splits)
      ultimately show "\<exists>m. nodes s a = Some m \<and> nodes s' a = Some (m\<lparr>next := Some c\<rparr>)"
        by simp
    qed
    moreover have "\<forall>l. pos \<noteq> Head_of l \<longrightarrow> head s' l = head s l" using hd' by simp
    moreover have "\<forall>y\<in>set (x # ys). test (snd y) \<longrightarrow> nodes s' (fst y) = None"
      using g' False x v by simp
    ultimately show ?thesis by blast
  qed
qed

lemma remove_if_chain:
  assumes "chain (nodes s) (head s this) xs"
  shows "\<exists>s'. remove_if this pred s = Some (Inr s') \<and>
      chain (nodes s') (head s' this) (filter (\<lambda>x. \<not> pred (snd x)) xs) \<and>
      (\<forall>a. a \<notin> fst ` set xs \<longrightarrow> nodes s' a = nodes s a) \<and>
      (\<forall>l. l \<noteq> this \<longrightarrow> head s' l = head s l) \<and>
      (\<forall>x\<in>set xs. pred (snd x) \<longrightarrow> nodes s' (fst x) = None)"
proof -
  have l: "load (Head_of this) s = Inr (head s this)" by (simp add: load_def)
  have o: "outside (Head_of this) xs" by (simp add: outside_def)
  from removal_loop [of "remove_if_loop pred" pred, OF remove_if_loop.simps l assms o]
  show ?thesis by (auto simp: remove_if_def load_def)
qed

text \<open>Reading a reference after the store has changed.\<close>

lemma read_ref_frame:
  assumes "read_ref r s = Inr v"
    and "\<And>a m. r = Element a \<Longrightarrow> nodes s a = Some m \<Longrightarrow>
           \<exists>m'. nodes s' a = Some m' \<and> value m' = value m"
  shows "read_ref r s' = Inr v"
proof (cases r)
  case (Object w)
  then show ?thesis using assms(1) by (simp add: read_ref_def)
next
  case (Element a)
  with assms(1) obtain m where m: "nodes s a = Some m" "value m = v"
    by (auto simp: read_ref_def split: option.splits)
  from assms(2) [OF Element m(1)] obtain m' where "nodes s' a = Some m'" "value m' = value m"
    by blast
  then show ?thesis using Element m(2) by (simp add: read_ref_def)
qed


lemma front_read:
  "front this s = (case front_ref this s of Inl e \<Rightarrow> Inl e | Inr r \<Rightarrow> read_ref r s)"
  by (simp add: front_def front_ref_def read_ref_def split: option.splits)

text \<open>One turn of the loop of \<open>remove\<close>.\<close>

lemma remove_loop_end: "load pos s = Inr None \<Longrightarrow> remove_loop r pos s = Some (Inr s)"
  by (subst remove_loop.simps) simp

lemma remove_loop_dangling:
  assumes "load pos s = Inr (Some p)" and "nodes s p = Some pn" and "read_ref r s = Inl e"
  shows "remove_loop r pos s = Some (Inl e)"
  by (subst remove_loop.simps) (simp add: assms)

lemma remove_loop_drop:
  assumes "load pos s = Inr (Some p)" and "nodes s p = Some pn" and "read_ref r s = Inr v"
    and "value pn = v" and "store pos (next pn) s = Inr s1" and "destroy_node p s1 = Inr s2"
  shows "remove_loop r pos s = remove_loop r pos s2"
  by (subst remove_loop.simps) (simp add: assms)

lemma remove_loop_keep:
  assumes "load pos s = Inr (Some p)" and "nodes s p = Some pn" and "read_ref r s = Inr v"
    and "value pn \<noteq> v"
  shows "remove_loop r pos s = remove_loop r (Next_of p) s"
  by (subst remove_loop.simps) (simp add: assms)

text \<open>Unlinking and destroying the node at \<open>*pos\<close>.\<close>

lemma drop_step:
  assumes l: "load pos s = Inr (Some c)" and n: "nodes s c = Some n"
    and zs: "chain (nodes s) (next n) zs" and o: "outside pos ((c, w) # zs)"
  shows "\<exists>s1 s2. store pos (next n) s = Inr s1 \<and> destroy_node c s1 = Inr s2 \<and>
      load pos s2 = Inr (next n) \<and> chain (nodes s2) (next n) zs \<and> nodes s2 c = None \<and>
      (\<forall>a. a \<noteq> c \<and> pos \<noteq> Next_of a \<longrightarrow> nodes s2 a = nodes s a) \<and>
      (\<forall>a. pos = Next_of a \<longrightarrow>
         (\<exists>m. nodes s a = Some m \<and> nodes s2 a = Some (m\<lparr>next := next n\<rparr>))) \<and>
      (\<forall>l. pos \<noteq> Head_of l \<longrightarrow> head s2 l = head s l)"
proof -
  have c_zs: "c \<notin> fst ` set zs" using n zs by (rule chain_head_notin_tail)
  have pos_c: "pos \<noteq> Next_of c" using o by (auto simp: outside_def)
  have pos_zs: "outside pos zs" using o by (auto simp: outside_def)
  from store_effect [OF l, of "next n"] obtain s1 where
    s1: "store pos (next n) s = Inr s1" and l1: "load pos s1 = Inr (next n)"
    and n1: "\<forall>a. pos \<noteq> Next_of a \<longrightarrow> nodes s1 a = nodes s a"
    and m1: "\<forall>a. pos = Next_of a \<longrightarrow>
               (\<exists>m. nodes s a = Some m \<and> nodes s1 a = Some (m\<lparr>next := next n\<rparr>))"
    and h1: "\<forall>l. pos \<noteq> Head_of l \<longrightarrow> head s1 l = head s l"
    by blast
  define s2 where "s2 = s1\<lparr>nodes := (nodes s1)(c := None)\<rparr>"
  have n2: "nodes s2 = (nodes s1)(c := None)" and h2: "head s2 = head s1"
    by (simp_all add: s2_def)
  have c1: "nodes s1 c = Some n" using n1 pos_c n by simp
  then have d: "destroy_node c s1 = Inr s2"
    by (simp add: destroy_node_def deallocate_node_def s2_def)
  have l2: "load pos s2 = Inr (next n)"
  proof -
    have "load pos s2 = load pos s1"
      using pos_c by (intro load_frame) (auto simp: n2 h2)
    then show ?thesis using l1 by simp
  qed
  have c2: "chain (nodes s2) (next n) zs"
  proof -
    have "chain (nodes s2) (next n) zs = chain (nodes s) (next n) zs"
    proof (rule chain_frame)
      fix a assume a: "a \<in> fst ` set zs"
      then have "a \<noteq> c" using c_zs by auto
      moreover have "pos \<noteq> Next_of a" using pos_zs a by (auto simp: outside_def)
      ultimately show "nodes s2 a = nodes s a" using n1 by (simp add: n2)
    qed
    then show ?thesis using zs by simp
  qed
  have g2: "nodes s2 c = None" by (simp add: n2)
  have f2: "\<forall>a. a \<noteq> c \<and> pos \<noteq> Next_of a \<longrightarrow> nodes s2 a = nodes s a"
    using n1 by (simp add: n2)
  have m2: "\<forall>a. pos = Next_of a \<longrightarrow>
      (\<exists>m. nodes s a = Some m \<and> nodes s2 a = Some (m\<lparr>next := next n\<rparr>))"
  proof (intro allI impI)
    fix a assume a: "pos = Next_of a"
    then have "a \<noteq> c" using pos_c by auto
    with m1 a show "\<exists>m. nodes s a = Some m \<and> nodes s2 a = Some (m\<lparr>next := next n\<rparr>)"
      by (simp add: n2)
  qed
  have hh: "\<forall>l. pos \<noteq> Head_of l \<longrightarrow> head s2 l = head s l" using h1 by (simp add: h2)
  show ?thesis
    by (intro exI [of _ s1] exI [of _ s2] conjI) (rule s1 d l2 c2 g2 f2 m2 hh)+
qed

text \<open>The reference still reads the same after a node other than its own was dropped.\<close>

lemma read_ref_after_drop:
  assumes rd: "read_ref r s = Inr v" and ne: "r \<noteq> Element c"
    and f2: "\<forall>a. a \<noteq> c \<and> pos \<noteq> Next_of a \<longrightarrow> nodes s2 a = nodes s a"
    and m2: "\<forall>a. pos = Next_of a \<longrightarrow>
      (\<exists>m. nodes s a = Some m \<and> nodes s2 a = Some (m\<lparr>next := q\<rparr>))"
  shows "read_ref r s2 = Inr v"
proof (rule read_ref_frame [OF rd])
  fix a m assume a: "r = Element a" "nodes s a = Some m"
  then have ac: "a \<noteq> c" using ne by auto
  show "\<exists>m'. nodes s2 a = Some m' \<and> value m' = value m"
  proof (cases "pos = Next_of a")
    case True
    with m2 obtain m0 where "nodes s a = Some m0" "nodes s2 a = Some (m0\<lparr>next := q\<rparr>)"
      by blast
    then show ?thesis using a(2) by simp
  next
    case False
    then have "nodes s2 a = nodes s a" using f2 ac by simp
    then show ?thesis using a(2) by simp
  qed
qed

text \<open>
  The loop of \<open>remove\<close> on a chain, when the reference reads as \<open>v\<close> at the start: it ends
  in undefined behaviour where \<open>removed\<close> is \<open>None\<close>, and otherwise returns normally with
  the chain that \<open>removed\<close> gives.
\<close>

lemma remove_loop_undefined:
  "removed r v xs = None \<Longrightarrow> load pos s = Inr p \<Longrightarrow> chain (nodes s) p xs \<Longrightarrow>
   outside pos xs \<Longrightarrow> read_ref r s = Inr v \<Longrightarrow>
   remove_loop r pos s = Some (Inl Undefined)"
proof (induction xs arbitrary: pos s p)
  case Nil
  then show ?case by simp
next
  case (Cons x zs)
  obtain c w where x: "x = (c, w)" by (cases x)
  from Cons.prems(3) x obtain n where p: "p = Some c" and n: "nodes s c = Some n"
    and w: "value n = w" and zs: "chain (nodes s) (next n) zs"
    by auto
  have l: "load pos s = Inr (Some c)" using Cons.prems(2) p by simp
  have o: "outside pos ((c, w) # zs)" using Cons.prems(4) x by simp
  have pos_zs: "outside pos zs" using o by (auto simp: outside_def)
  have c_zs: "c \<notin> fst ` set zs" using n zs by (rule chain_head_notin_tail)
  show ?case
  proof (cases "w = v")
    case True
    from drop_step [OF l n zs o] obtain s1 s2 where
      s1: "store pos (next n) s = Inr s1" and d: "destroy_node c s1 = Inr s2"
      and l2: "load pos s2 = Inr (next n)" and c2: "chain (nodes s2) (next n) zs"
      and g2: "nodes s2 c = None"
      and f2: "\<forall>a. a \<noteq> c \<and> pos \<noteq> Next_of a \<longrightarrow> nodes s2 a = nodes s a"
      and m2: "\<forall>a. pos = Next_of a \<longrightarrow>
         (\<exists>m. nodes s a = Some m \<and> nodes s2 a = Some (m\<lparr>next := next n\<rparr>))"
      by blast
    have vn: "value n = v" using w True by simp
    have step: "remove_loop r pos s = remove_loop r pos s2"
      by (rule remove_loop_drop [OF l n Cons.prems(5) vn s1 d])
    show ?thesis
    proof (cases "r = Element c")
      case same: True
      with Cons.prems(1) x True have "zs \<noteq> []" by (auto split: if_splits)
      then obtain c' w' zs' where "zs = (c', w') # zs'" by (cases zs) auto
      with c2 obtain n' where "next n = Some c'" "nodes s2 c' = Some n'" by auto
      with l2 have "load pos s2 = Inr (Some c')" "nodes s2 c' = Some n'" by simp_all
      moreover have "read_ref r s2 = Inl Undefined" using same g2 by (simp add: read_ref_def)
      ultimately have "remove_loop r pos s2 = Some (Inl Undefined)"
        by (rule remove_loop_dangling)
      with step show ?thesis by simp
    next
      case other: False
      have rd: "read_ref r s2 = Inr v"
        using Cons.prems(5) other f2 m2 by (rule read_ref_after_drop)
      have "removed r v zs = None" using Cons.prems(1) x True other by simp
      from Cons.IH [OF this l2 c2 pos_zs rd] step show ?thesis by simp
    qed
  next
    case False
    then have "value n \<noteq> v" using w by simp
    with l n Cons.prems(5) have step: "remove_loop r pos s = remove_loop r (Next_of c) s"
      by (rule remove_loop_keep)
    have r: "removed r v zs = None" using Cons.prems(1) x False by simp
    have l2: "load (Next_of c) s = Inr (next n)" using n by (simp add: load_def)
    have o2: "outside (Next_of c) zs" using c_zs by (simp add: outside_def)
    from Cons.IH [OF r l2 zs o2 Cons.prems(5)] step show ?thesis by simp
  qed
qed

lemma remove_loop_returns:
  "removed r v xs = Some ys \<Longrightarrow> load pos s = Inr p \<Longrightarrow> chain (nodes s) p xs \<Longrightarrow>
   outside pos xs \<Longrightarrow> read_ref r s = Inr v \<Longrightarrow>
   \<exists>s' p'. remove_loop r pos s = Some (Inr s') \<and> load pos s' = Inr p' \<and>
     chain (nodes s') p' ys \<and>
     (\<forall>a. a \<notin> fst ` set xs \<and> pos \<noteq> Next_of a \<longrightarrow> nodes s' a = nodes s a) \<and>
     (\<forall>a. pos = Next_of a \<longrightarrow> (\<exists>m. nodes s a = Some m \<and> nodes s' a = Some (m\<lparr>next := p'\<rparr>))) \<and>
     (\<forall>l. pos \<noteq> Head_of l \<longrightarrow> head s' l = head s l) \<and>
     (\<forall>x\<in>set xs. x \<notin> set ys \<longrightarrow> nodes s' (fst x) = None)"
proof (induction xs arbitrary: pos s p ys)
  case Nil
  then have p: "p = None" and ys: "ys = []" by simp_all
  have "remove_loop r pos s = Some (Inr s)" using Nil.prems(2) p by (simp add: remove_loop_end)
  moreover have "\<forall>a. pos = Next_of a \<longrightarrow> (\<exists>m. nodes s a = Some m \<and> nodes s a = Some (m\<lparr>next := p\<rparr>))"
    using Nil.prems(2) by (auto simp: load_def split: option.splits)
  ultimately show ?case using Nil.prems(2) p ys by auto
next
  case (Cons x zs)
  obtain c w where x: "x = (c, w)" by (cases x)
  from Cons.prems(3) x obtain n where p: "p = Some c" and n: "nodes s c = Some n"
    and w: "value n = w" and zs: "chain (nodes s) (next n) zs"
    by auto
  have l: "load pos s = Inr (Some c)" using Cons.prems(2) p by simp
  have o: "outside pos ((c, w) # zs)" using Cons.prems(4) x by simp
  have pos_c: "pos \<noteq> Next_of c" using o by (auto simp: outside_def)
  have pos_zs: "outside pos zs" using o by (auto simp: outside_def)
  have c_zs: "c \<notin> fst ` set zs" using n zs by (rule chain_head_notin_tail)
  show ?case
  proof (cases "w = v")
    case True
    from drop_step [OF l n zs o] obtain s1 s2 where
      s1: "store pos (next n) s = Inr s1" and d: "destroy_node c s1 = Inr s2"
      and l2: "load pos s2 = Inr (next n)" and c2: "chain (nodes s2) (next n) zs"
      and g2: "nodes s2 c = None"
      and f2: "\<forall>a. a \<noteq> c \<and> pos \<noteq> Next_of a \<longrightarrow> nodes s2 a = nodes s a"
      and m2: "\<forall>a. pos = Next_of a \<longrightarrow>
         (\<exists>m. nodes s a = Some m \<and> nodes s2 a = Some (m\<lparr>next := next n\<rparr>))"
      and h2: "\<forall>l. pos \<noteq> Head_of l \<longrightarrow> head s2 l = head s l"
      by blast
    have vn: "value n = v" using w True by simp
    have step: "remove_loop r pos s = remove_loop r pos s2"
      by (rule remove_loop_drop [OF l n Cons.prems(5) vn s1 d])
    show ?thesis
    proof (cases "r = Element c")
      case same: True
      with Cons.prems(1) x True have e: "zs = []" and ys: "ys = []"
        by (auto split: if_splits)
      with c2 have nn: "next n = None" by simp
      have "remove_loop r pos s2 = Some (Inr s2)" using l2 nn by (simp add: remove_loop_end)
      with step have 1: "remove_loop r pos s = Some (Inr s2)" by simp
      have 2: "load pos s2 = Inr None" using l2 nn by simp
      have 3: "chain (nodes s2) None ys" using ys by simp
      have 4: "\<forall>a. a \<notin> fst ` set (x # zs) \<and> pos \<noteq> Next_of a \<longrightarrow> nodes s2 a = nodes s a"
        using f2 x by auto
      have 5: "\<forall>a. pos = Next_of a \<longrightarrow>
          (\<exists>m. nodes s a = Some m \<and> nodes s2 a = Some (m\<lparr>next := None\<rparr>))"
        using m2 nn by simp
      have 6: "\<forall>y\<in>set (x # zs). y \<notin> set ys \<longrightarrow> nodes s2 (fst y) = None"
        using g2 x e by simp
      show ?thesis
        by (intro exI [of _ s2] exI [of _ None] conjI) (rule 1 2 3 4 5 h2 6)+
    next
      case other: False
      have rd: "read_ref r s2 = Inr v"
        using Cons.prems(5) other f2 m2 by (rule read_ref_after_drop)
      have "removed r v zs = Some ys" using Cons.prems(1) x True other by simp
      from Cons.IH [OF this l2 c2 pos_zs rd] obtain s' p' where
        r: "remove_loop r pos s2 = Some (Inr s')" and l': "load pos s' = Inr p'"
        and c': "chain (nodes s') p' ys"
        and n': "\<forall>a. a \<notin> fst ` set zs \<and> pos \<noteq> Next_of a \<longrightarrow> nodes s' a = nodes s2 a"
        and m': "\<forall>a. pos = Next_of a \<longrightarrow>
                   (\<exists>m. nodes s2 a = Some m \<and> nodes s' a = Some (m\<lparr>next := p'\<rparr>))"
        and h': "\<forall>l. pos \<noteq> Head_of l \<longrightarrow> head s' l = head s2 l"
        and g': "\<forall>y\<in>set zs. y \<notin> set ys \<longrightarrow> nodes s' (fst y) = None"
        by blast
      have 1: "remove_loop r pos s = Some (Inr s')" using step r by simp
      have 4: "\<forall>a. a \<notin> fst ` set (x # zs) \<and> pos \<noteq> Next_of a \<longrightarrow> nodes s' a = nodes s a"
        using n' f2 x by auto
      have 5: "\<forall>a. pos = Next_of a \<longrightarrow>
          (\<exists>m. nodes s a = Some m \<and> nodes s' a = Some (m\<lparr>next := p'\<rparr>))"
      proof (intro allI impI)
        fix a assume a: "pos = Next_of a"
        from m2 a obtain m where m: "nodes s a = Some m" "nodes s2 a = Some (m\<lparr>next := next n\<rparr>)"
          by blast
        from m' a obtain k where k: "nodes s2 a = Some k" "nodes s' a = Some (k\<lparr>next := p'\<rparr>)"
          by blast
        from m(2) k(1) have "k = m\<lparr>next := next n\<rparr>" by simp
        then show "\<exists>m. nodes s a = Some m \<and> nodes s' a = Some (m\<lparr>next := p'\<rparr>)"
          using m(1) k(2) by simp
      qed
      have 6: "\<forall>l. pos \<noteq> Head_of l \<longrightarrow> head s' l = head s l" using h' h2 by simp
      have 7: "\<forall>y\<in>set (x # zs). y \<notin> set ys \<longrightarrow> nodes s' (fst y) = None"
      proof -
        have "nodes s' c = nodes s2 c" using n' c_zs pos_c by blast
        then have "nodes s' c = None" using g2 by simp
        then show ?thesis using g' x by simp
      qed
      show ?thesis
        by (intro exI [of _ s'] exI [of _ p'] conjI) (rule 1 l' c' 4 5 6 7)+
    qed
  next
    case False
    then have "value n \<noteq> v" using w by simp
    with l n Cons.prems(5) have step: "remove_loop r pos s = remove_loop r (Next_of c) s"
      by (rule remove_loop_keep)
    from Cons.prems(1) x False obtain ys' where r': "removed r v zs = Some ys'"
      and ys: "ys = (c, w) # ys'"
      by auto
    have l2: "load (Next_of c) s = Inr (next n)" using n by (simp add: load_def)
    have o2: "outside (Next_of c) zs" using c_zs by (simp add: outside_def)
    from Cons.IH [OF r' l2 zs o2 Cons.prems(5)] obtain s' p' where
      r: "remove_loop r (Next_of c) s = Some (Inr s')" and l': "load (Next_of c) s' = Inr p'"
      and c': "chain (nodes s') p' ys'"
      and n': "\<forall>a. a \<notin> fst ` set zs \<and> Next_of c \<noteq> Next_of a \<longrightarrow> nodes s' a = nodes s a"
      and m': "\<forall>a. Next_of c = Next_of a \<longrightarrow>
                 (\<exists>m. nodes s a = Some m \<and> nodes s' a = Some (m\<lparr>next := p'\<rparr>))"
      and h': "\<forall>l. Next_of c \<noteq> Head_of l \<longrightarrow> head s' l = head s l"
      and g': "\<forall>y\<in>set zs. y \<notin> set ys' \<longrightarrow> nodes s' (fst y) = None"
      by blast
    have nc': "nodes s' c = Some (n\<lparr>next := p'\<rparr>)" using m' n by auto
    have hd': "head s' = head s" using h' by auto
    have 1: "remove_loop r pos s = Some (Inr s')" using step r by simp
    have 2: "load pos s' = Inr (Some c)"
    proof -
      have "load pos s' = load pos s"
      proof (rule load_frame)
        show "\<forall>a. pos = Next_of a \<longrightarrow> nodes s' a = nodes s a"
          using n' Cons.prems(4) x by (auto simp: outside_def)
        show "\<forall>l. pos = Head_of l \<longrightarrow> head s' l = head s l" using hd' by simp
      qed
      then show ?thesis using l by simp
    qed
    have 3: "chain (nodes s') (Some c) ys" using c' ys nc' w by simp
    have 4: "\<forall>a. a \<notin> fst ` set (x # zs) \<and> pos \<noteq> Next_of a \<longrightarrow> nodes s' a = nodes s a"
      using n' x by auto
    have 5: "\<forall>a. pos = Next_of a \<longrightarrow>
        (\<exists>m. nodes s a = Some m \<and> nodes s' a = Some (m\<lparr>next := Some c\<rparr>))"
    proof (intro allI impI)
      fix a assume a: "pos = Next_of a"
      then have "a \<notin> fst ` set (x # zs)" using Cons.prems(4) by (simp add: outside_def)
      then have "nodes s' a = nodes s a" using n' x by auto
      moreover from l a obtain m where "nodes s a = Some m" "next m = Some c"
        by (auto simp: load_def split: option.splits)
      ultimately show "\<exists>m. nodes s a = Some m \<and> nodes s' a = Some (m\<lparr>next := Some c\<rparr>)"
        by simp
    qed
    have 6: "\<forall>l. pos \<noteq> Head_of l \<longrightarrow> head s' l = head s l" using hd' by simp
    have 7: "\<forall>y\<in>set (x # zs). y \<notin> set ys \<longrightarrow> nodes s' (fst y) = None"
      using g' x ys by auto
    show ?thesis
      by (intro exI [of _ s'] exI [of _ "Some c"] conjI) (rule 1 2 3 4 5 6 7)+
  qed
qed

text \<open>What \<open>removed\<close> computes.\<close>

lemma removed_outside:
  "\<not> refers_into r xs \<Longrightarrow> removed r v xs = Some (filter (\<lambda>x. snd x \<noteq> v) xs)"
proof (induction xs)
  case Nil
  then show ?case by simp
next
  case (Cons x xs)
  obtain c w where x: "x = (c, w)" by (cases x)
  from Cons.prems x have "r \<noteq> Element c" "\<not> refers_into r xs" by (cases r; auto)+
  with Cons.IH x show ?case by simp
qed


lemma removed_inside:
  "a \<notin> fst ` set pre \<Longrightarrow> post \<noteq> [] \<Longrightarrow> removed (Element a) v (pre @ (a, v) # post) = None"
proof (induction pre)
  case Nil
  then show ?case by simp
next
  case (Cons x pre)
  obtain c w where x: "x = (c, w)" by (cases x)
  from Cons x show ?case by auto
qed

lemma remove_chain:
  assumes "chain (nodes s) (head s this) xs" and "read_ref r s = Inr v"
  shows "(removed r v xs = None \<longrightarrow> remove this r s = Some (Inl Undefined)) \<and>
    (\<forall>ys. removed r v xs = Some ys \<longrightarrow>
      (\<exists>s'. remove this r s = Some (Inr s') \<and> chain (nodes s') (head s' this) ys \<and>
        (\<forall>a. a \<notin> fst ` set xs \<longrightarrow> nodes s' a = nodes s a) \<and>
        (\<forall>l. l \<noteq> this \<longrightarrow> head s' l = head s l) \<and>
        (\<forall>x\<in>set xs. x \<notin> set ys \<longrightarrow> nodes s' (fst x) = None)))"
proof (intro conjI allI impI)
  have l: "load (Head_of this) s = Inr (head s this)" by (simp add: load_def)
  have o: "outside (Head_of this) xs" by (simp add: outside_def)
  {
    assume "removed r v xs = None"
    from remove_loop_undefined [OF this l assms(1) o assms(2)]
    show "remove this r s = Some (Inl Undefined)" by (simp add: remove_def)
  next
    fix ys assume "removed r v xs = Some ys"
    from remove_loop_returns [OF this l assms(1) o assms(2)]
    show "\<exists>s'. remove this r s = Some (Inr s') \<and> chain (nodes s') (head s' this) ys \<and>
        (\<forall>a. a \<notin> fst ` set xs \<longrightarrow> nodes s' a = nodes s a) \<and>
        (\<forall>l. l \<noteq> this \<longrightarrow> head s' l = head s l) \<and>
        (\<forall>x\<in>set xs. x \<notin> set ys \<longrightarrow> nodes s' (fst x) = None)"
      by (auto simp: remove_def load_def)
  }
qed


text \<open>
  C8 does not hold of the code.  \<open>remove\<close> takes its argument by reference and reads it
  again after every node it destroys.  When the reference denotes an element of the list
  itself, as in \<open>l.remove(l.front())\<close>, that element matches and is destroyed, and unless
  it was the last node of the chain, the next comparison reads the destroyed node:
  undefined behaviour, with the matching nodes behind it still in the list.  For a
  reference to an object that is not a node of the list, \<open>remove\<close> does what the claim
  says, and so does \<open>remove_if\<close>, which takes its predicate by value: the call returns
  normally, the list holds exactly the nodes whose value does not match, in their former
  order, and iterates as the non-matching values; every matching node has been destroyed;
  and the length has dropped by the number of matching nodes.
\<close>

theorem remove_exactly_matches:
  assumes "list_of s this xs"
  shows "(read_ref r s = Inr v \<and> \<not> refers_into r xs \<longrightarrow>
            (\<exists>s'. remove this r s = Some (Inr s') \<and>
               list_of s' this (filter (\<lambda>x. snd x \<noteq> v) xs) \<and>
               iterate this s' = Some (Inr (filter (\<lambda>x. x \<noteq> v) (map snd xs))) \<and>
               (\<forall>x\<in>set xs. snd x = v \<longrightarrow> nodes s' (fst x) = None) \<and>
               length (filter (\<lambda>x. snd x \<noteq> v) xs) =
                 length xs - length (filter (\<lambda>x. snd x = v) xs))) \<and>
         (\<exists>s'. remove_if this pred s = Some (Inr s') \<and>
            list_of s' this (filter (\<lambda>x. \<not> pred (snd x)) xs) \<and>
            iterate this s' = Some (Inr (filter (\<lambda>x. \<not> pred x) (map snd xs))) \<and>
            (\<forall>x\<in>set xs. pred (snd x) \<longrightarrow> nodes s' (fst x) = None) \<and>
            length (filter (\<lambda>x. \<not> pred (snd x)) xs) =
              length xs - length (filter (\<lambda>x. pred (snd x)) xs)) \<and>
         (\<forall>pre a w post. xs = pre @ (a, w) # post \<and> post \<noteq> [] \<longrightarrow>
            remove this (Element a) s = Some (Inl Undefined))"
proof -
  from assms have c: "chain (nodes s) (head s this) xs" by (simp add: list_of_def)
  have it: "\<And>s' P. list_of s' this (filter (\<lambda>x. \<not> P (snd x)) xs) \<Longrightarrow>
      iterate this s' = Some (Inr (filter (\<lambda>x. \<not> P x) (map snd xs)))"
    by (erule iterate_values) (simp add: filter_map comp_def)
  have len: "\<And>P. length (filter (\<lambda>x. \<not> P x) xs) = length xs - length (filter P xs)"
    using sum_length_filter_compl [of _ xs] by (metis add_diff_cancel_left')
  have 1: "read_ref r s = Inr v \<and> \<not> refers_into r xs \<longrightarrow>
            (\<exists>s'. remove this r s = Some (Inr s') \<and>
               list_of s' this (filter (\<lambda>x. snd x \<noteq> v) xs) \<and>
               iterate this s' = Some (Inr (filter (\<lambda>x. x \<noteq> v) (map snd xs))) \<and>
               (\<forall>x\<in>set xs. snd x = v \<longrightarrow> nodes s' (fst x) = None) \<and>
               length (filter (\<lambda>x. snd x \<noteq> v) xs) =
                 length xs - length (filter (\<lambda>x. snd x = v) xs))"
  proof
    assume a: "read_ref r s = Inr v \<and> \<not> refers_into r xs"
    then have rd: "read_ref r s = Inr v"
      and rm: "removed r v xs = Some (filter (\<lambda>x. snd x \<noteq> v) xs)"
      by (simp_all add: removed_outside)
    from remove_chain [OF c rd] rm obtain s1 where
      a1: "remove this r s = Some (Inr s1)"
      and c1: "chain (nodes s1) (head s1 this) (filter (\<lambda>x. snd x \<noteq> v) xs)"
      and g1: "\<forall>x\<in>set xs. x \<notin> set (filter (\<lambda>x. snd x \<noteq> v) xs) \<longrightarrow> nodes s1 (fst x) = None"
      by blast
    have b1: "list_of s1 this (filter (\<lambda>x. snd x \<noteq> v) xs)" using c1 by (simp add: list_of_def)
    from it [of s1 "\<lambda>x. x = v"] b1
    have i1: "iterate this s1 = Some (Inr (filter (\<lambda>x. x \<noteq> v) (map snd xs)))" by simp
    have d1: "\<forall>x\<in>set xs. snd x = v \<longrightarrow> nodes s1 (fst x) = None" using g1 by simp
    have e1: "length (filter (\<lambda>x. snd x \<noteq> v) xs) =
                 length xs - length (filter (\<lambda>x. snd x = v) xs)"
      using len [of "\<lambda>x. snd x = v"] by simp
    show "\<exists>s'. remove this r s = Some (Inr s') \<and>
               list_of s' this (filter (\<lambda>x. snd x \<noteq> v) xs) \<and>
               iterate this s' = Some (Inr (filter (\<lambda>x. x \<noteq> v) (map snd xs))) \<and>
               (\<forall>x\<in>set xs. snd x = v \<longrightarrow> nodes s' (fst x) = None) \<and>
               length (filter (\<lambda>x. snd x \<noteq> v) xs) =
                 length xs - length (filter (\<lambda>x. snd x = v) xs)"
      by (intro exI [of _ s1] conjI) (rule a1 b1 i1 d1 e1)+
  qed
  from remove_if_chain [of s this xs pred] c
  have "\<exists>s'. remove_if this pred s = Some (Inr s') \<and>
            list_of s' this (filter (\<lambda>x. \<not> pred (snd x)) xs) \<and>
            (\<forall>x\<in>set xs. pred (snd x) \<longrightarrow> nodes s' (fst x) = None)"
    unfolding list_of_def by blast
  then obtain s2 where a2: "remove_if this pred s = Some (Inr s2)"
    and b2: "list_of s2 this (filter (\<lambda>x. \<not> pred (snd x)) xs)"
    and c2: "\<forall>x\<in>set xs. pred (snd x) \<longrightarrow> nodes s2 (fst x) = None"
    by blast
  from b2 have i2: "iterate this s2 = Some (Inr (filter (\<lambda>x. \<not> pred x) (map snd xs)))"
    by (rule it)
  have d2: "length (filter (\<lambda>x. \<not> pred (snd x)) xs) =
              length xs - length (filter (\<lambda>x. pred (snd x)) xs)"
    by (rule len)
  have 2: "\<exists>s'. remove_if this pred s = Some (Inr s') \<and>
            list_of s' this (filter (\<lambda>x. \<not> pred (snd x)) xs) \<and>
            iterate this s' = Some (Inr (filter (\<lambda>x. \<not> pred x) (map snd xs))) \<and>
            (\<forall>x\<in>set xs. pred (snd x) \<longrightarrow> nodes s' (fst x) = None) \<and>
            length (filter (\<lambda>x. \<not> pred (snd x)) xs) =
              length xs - length (filter (\<lambda>x. pred (snd x)) xs)"
    by (intro exI [of _ s2] conjI) (rule a2 b2 i2 c2 d2)+
  have 3: "\<forall>pre a w post. xs = pre @ (a, w) # post \<and> post \<noteq> [] \<longrightarrow>
            remove this (Element a) s = Some (Inl Undefined)"
  proof (intro allI impI)
    fix pre a w post assume h: "xs = pre @ (a, w) # post \<and> post \<noteq> []"
    then have xs: "xs = pre @ (a, w) # post" and post: "post \<noteq> []" by simp_all
    from c have "distinct (map fst xs)" by (rule chain_distinct)
    then have a_pre: "a \<notin> fst ` set pre" using xs by auto
    have "a \<in> fst ` set xs" using xs by force
    with c have "nodes s a \<noteq> None" by (rule chain_allocated)
    moreover have "(a, w) \<in> set xs" using xs by simp
    with c have "\<exists>m. nodes s a = Some m \<and> value m = w" by (rule chain_member)
    ultimately have rd: "read_ref (Element a) s = Inr w" by (auto simp: read_ref_def)
    have "removed (Element a) w xs = None" using a_pre post xs by (simp add: removed_inside)
    with remove_chain [OF c rd] show "remove this (Element a) s = Some (Inl Undefined)"
      by simp
  qed
  from 1 2 3 show ?thesis by (intro conjI)
qed

theorem remove_exactly_matches_witness:
  "list_of example_1211 0 [(40, 1), (41, 2), (42, 1), (43, 1)] \<and>
   front_ref 0 example_1211 = Inr (Element 40) \<and>
   remove 0 (Element 40) example_1211 = Some (Inl Undefined) \<and>
   read_ref (Object 1) example_1211 = Inr 1 \<and>
   \<not> refers_into (Object (1::int)) [(40, 1), (41, 2), (42, 1), (43, 1)] \<and>
   (\<exists>s'. remove 0 (Object 1) example_1211 = Some (Inr s') \<and> list_of s' 0 [(41, 2)] \<and>
      iterate 0 s' = Some (Inr [2]) \<and>
      nodes s' 40 = None \<and> nodes s' 42 = None \<and> nodes s' 43 = None) \<and>
   (\<exists>s'. remove_if 0 (\<lambda>x. 1 < x) example_1211 = Some (Inr s') \<and>
      list_of s' 0 [(40, 1), (42, 1), (43, 1)] \<and>
      iterate 0 s' = Some (Inr [1, 1, 1]) \<and> nodes s' 41 = None)"
proof -
  have l: "list_of example_1211 0 [(40, 1), (41, 2), (42, 1), (43, 1)]"
    by (simp add: list_of_def example_1211_def)
  have f: "front_ref 0 example_1211 = Inr (Element 40)"
    by (simp add: front_ref_def example_1211_def)
  have rd: "read_ref (Object 1) example_1211 = Inr 1" by (simp add: read_ref_def)
  note t = remove_exactly_matches [OF l, of "Object 1" 1 "\<lambda>x. 1 < x"]
  from t have "\<forall>pre a w post.
      [(40::nat, 1::int), (41, 2), (42, 1), (43, 1)] = pre @ (a, w) # post \<and> post \<noteq> [] \<longrightarrow>
      remove 0 (Element a) example_1211 = Some (Inl Undefined)"
    by (elim conjE)
  from this [rule_format, of "[]" 40 1 "[(41, 2), (42, 1), (43, 1)]"]
  have u: "remove 0 (Element 40) example_1211 = Some (Inl Undefined)" by simp
  from t l f rd u show ?thesis by simp
qed

subsection \<open>\<open>unique\<close>\<close>


lemma unique_loop_drop:
  assumes "nodes s c = Some cn" and "next cn = Some t" and "nodes s t = Some tn"
    and "value cn = value tn"
    and "set_next c (next tn) s = Inr s1" and "destroy_node t s1 = Inr s2"
  shows "unique_loop (Some c) s = unique_loop (Some c) s2"
  apply (subst unique_loop.simps)
  apply (simp add: assms(1-3))
  apply (simp add: assms(4-6))
  done

lemma unique_loop_keep:
  assumes "nodes s c = Some cn" and "next cn = Some t" and "nodes s t = Some tn"
    and "value cn \<noteq> value tn"
  shows "unique_loop (Some c) s = unique_loop (Some t) s"
  apply (subst unique_loop.simps)
  apply (simp add: assms(1-3))
  apply (simp add: assms(4))
  done

lemma unique_loop_chain:
  "chain (nodes s) current xs \<Longrightarrow>
   \<exists>s'. unique_loop current s = Some (Inr s') \<and> chain (nodes s') current (uniq xs) \<and>
     head s' = head s \<and> (\<forall>a. a \<notin> fst ` set xs \<longrightarrow> nodes s' a = nodes s a) \<and>
     (\<forall>a. a \<in> fst ` set xs - fst ` set (uniq xs) \<longrightarrow> nodes s' a = None)"
proof (induction xs arbitrary: current s rule: uniq.induct)
  case 1
  then show ?case by (subst unique_loop.simps) simp
next
  case (2 x)
  obtain c v where x: "x = (c, v)" by (cases x)
  from "2.prems" x obtain n where "current = Some c" "nodes s c = Some n" "value n = v"
    "next n = None" by auto
  then show ?case using x by (subst unique_loop.simps) simp
next
  case (3 x y zs)
  obtain c v where x: "x = (c, v)" by (cases x)
  obtain t w where y: "y = (t, w)" by (cases y)
  from "3.prems" x y obtain cn tn where cur: "current = Some c" and cn: "nodes s c = Some cn"
    and v: "value cn = v" and nx: "next cn = Some t" and tn: "nodes s t = Some tn"
    and w: "value tn = w" and zs: "chain (nodes s) (next tn) zs"
    by auto
  have t_zs: "t \<notin> fst ` set zs" using tn zs by (rule chain_head_notin_tail)
  have "chain (nodes s) (next cn) (y # zs)" using nx tn w zs y by simp
  with cn have "c \<notin> fst ` set (y # zs)" by (rule chain_head_notin_tail)
  then have c_t: "c \<noteq> t" and c_zs: "c \<notin> fst ` set zs" using y by auto
  show ?case
  proof (cases "v = w")
    case True
    define s1 where "s1 = s\<lparr>nodes := (nodes s)(c \<mapsto> cn\<lparr>next := next tn\<rparr>)\<rparr>"
    define s2 where "s2 = s1\<lparr>nodes := (nodes s1)(t := None)\<rparr>"
    have sn: "set_next c (next tn) s = Inr s1" using cn by (simp add: s1_def set_next_def)
    have d: "destroy_node t s1 = Inr s2"
      using c_t tn by (simp add: s1_def s2_def destroy_node_def deallocate_node_def)
    have n2: "nodes s2 = (nodes s)(c \<mapsto> cn\<lparr>next := next tn\<rparr>, t := None)"
      by (simp add: s1_def s2_def)
    have h2: "head s2 = head s" by (simp add: s1_def s2_def)
    have zs2: "chain (nodes s2) (next tn) zs"
      using zs t_zs c_zs by (simp add: n2 chain_upd_other)
    have c2: "chain (nodes s2) (Some c) (x # zs)"
      using zs2 c_t v x by (simp add: n2)
    have eq: "snd x = snd y" using True x y by simp
    from "3.IH"(1) [OF eq c2] obtain s' where
      r: "unique_loop (Some c) s2 = Some (Inr s')"
      and c': "chain (nodes s') (Some c) (uniq (x # zs))"
      and h': "head s' = head s2"
      and f': "\<forall>a. a \<notin> fst ` set (x # zs) \<longrightarrow> nodes s' a = nodes s2 a"
      and g': "\<forall>a. a \<in> fst ` set (x # zs) - fst ` set (uniq (x # zs)) \<longrightarrow> nodes s' a = None"
      by blast
    have "value cn = value tn" using v w True by simp
    from unique_loop_drop [OF cn nx tn this sn d] r cur
    have "unique_loop current s = Some (Inr s')" by simp
    moreover have "chain (nodes s') current (uniq (x # y # zs))" using c' cur eq by simp
    moreover have "head s' = head s" using h' h2 by simp
    moreover have "\<forall>a. a \<notin> fst ` set (x # y # zs) \<longrightarrow> nodes s' a = nodes s a"
      using f' x y by (auto simp: n2)
    moreover have "\<forall>a. a \<in> fst ` set (x # y # zs) - fst ` set (uniq (x # y # zs)) \<longrightarrow>
        nodes s' a = None"
    proof (intro allI impI)
      fix a assume a: "a \<in> fst ` set (x # y # zs) - fst ` set (uniq (x # y # zs))"
      show "nodes s' a = None"
      proof (cases "a = t")
        case True
        then have "a \<notin> fst ` set (x # zs)" using c_t t_zs x by auto
        then have "nodes s' a = nodes s2 a" using f' by blast
        then show ?thesis using True by (simp add: n2)
      next
        case False
        then have "a \<in> fst ` set (x # zs) - fst ` set (uniq (x # zs))"
          using a eq y by auto
        then show ?thesis by (rule g' [rule_format])
      qed
    qed
    ultimately show ?thesis by blast
  next
    case False
    have ne: "snd x \<noteq> snd y" using False x y by simp
    have c2: "chain (nodes s) (next cn) (y # zs)" using nx tn w zs y by simp
    from "3.IH"(2) [OF ne c2] obtain s' where
      r: "unique_loop (next cn) s = Some (Inr s')"
      and c': "chain (nodes s') (next cn) (uniq (y # zs))"
      and h': "head s' = head s"
      and f': "\<forall>a. a \<notin> fst ` set (y # zs) \<longrightarrow> nodes s' a = nodes s a"
      and g': "\<forall>a. a \<in> fst ` set (y # zs) - fst ` set (uniq (y # zs)) \<longrightarrow> nodes s' a = None"
      by blast
    have nc: "nodes s' c = Some cn" using f' c_t c_zs cn y by auto
    have "value cn \<noteq> value tn" using v w False by simp
    from unique_loop_keep [OF cn nx tn this] r cur nx
    have "unique_loop current s = Some (Inr s')" by simp
    moreover have "chain (nodes s') current (uniq (x # y # zs))"
      using c' cur ne nc v x by simp
    moreover have "\<forall>a. a \<notin> fst ` set (x # y # zs) \<longrightarrow> nodes s' a = nodes s a"
      using f' by auto
    moreover have "\<forall>a. a \<in> fst ` set (x # y # zs) - fst ` set (uniq (x # y # zs)) \<longrightarrow>
        nodes s' a = None"
      using g' ne by auto
    ultimately show ?thesis using h' by blast
  qed
qed

lemma uniq_values: "map snd (uniq xs) = remdups_adj (map snd xs)"
  by (induction xs rule: uniq.induct) auto

lemma zip_filter_head:
  "snd x = snd y \<Longrightarrow>
   map snd (filter (\<lambda>(prev, cur). snd cur \<noteq> snd prev) (zip (x # zs) zs)) =
   map snd (filter (\<lambda>(prev, cur). snd cur \<noteq> snd prev) (zip (y # zs) zs))"
  by (cases zs) auto

lemma uniq_spec: "uniq xs = unique_spec xs"
proof (induction xs rule: uniq.induct)
  case 1
  show ?case by (simp add: unique_spec_def)
next
  case (2 x)
  show ?case by (simp add: unique_spec_def)
next
  case (3 x y zs)
  show ?case
  proof (cases "snd x = snd y")
    case True
    with 3 have "uniq (x # y # zs) = unique_spec (x # zs)" by simp
    also have "\<dots> = unique_spec (x # y # zs)"
      using True zip_filter_head [OF True, of zs] by (simp add: unique_spec_def)
    finally show ?thesis .
  next
    case False
    with 3 have "uniq (x # y # zs) = x # unique_spec (y # zs)" by simp
    also have "\<dots> = unique_spec (x # y # zs)"
      using False by (auto simp add: unique_spec_def)
    finally show ?thesis .
  qed
qed

text \<open>
  C5.  On a well-formed list, \<open>unique\<close> returns normally.  The list then holds the first
  node and exactly those later nodes whose value differs from the value of their immediate
  predecessor, in their former order; the values, which the list then iterates as, are
  the original values with adjacent repetitions collapsed; and every node that left the list has been destroyed.  Equal
  values that are not adjacent are both kept.
\<close>

theorem unique_adjacent:
  assumes "list_of s this xs"
  shows "\<exists>s'. unique this s = Some (Inr s') \<and> list_of s' this (unique_spec xs) \<and>
           map snd (unique_spec xs) = remdups_adj (map snd xs) \<and>
           iterate this s' = Some (Inr (remdups_adj (map snd xs))) \<and>
           (\<forall>a. a \<in> fst ` set xs - fst ` set (unique_spec xs) \<longrightarrow> nodes s' a = None)"
proof -
  from assms have c: "chain (nodes s) (head s this) xs" by (simp add: list_of_def)
  from unique_loop_chain [OF c]
  have "\<exists>s'. unique this s = Some (Inr s') \<and> list_of s' this (unique_spec xs) \<and>
           map snd (unique_spec xs) = remdups_adj (map snd xs) \<and>
           (\<forall>a. a \<in> fst ` set xs - fst ` set (unique_spec xs) \<longrightarrow> nodes s' a = None)"
    by (auto simp: unique_def list_of_def uniq_spec [symmetric] uniq_values)
  then obtain s' where u: "unique this s = Some (Inr s')"
    and l: "list_of s' this (unique_spec xs)"
    and v: "map snd (unique_spec xs) = remdups_adj (map snd xs)"
    and f: "\<forall>a. a \<in> fst ` set xs - fst ` set (unique_spec xs) \<longrightarrow> nodes s' a = None"
    by blast
  from l v have i: "iterate this s' = Some (Inr (remdups_adj (map snd xs)))"
    by (rule iterate_values)
  show ?thesis by (intro exI [of _ s'] conjI) (rule u l v i f)+
qed





theorem unique_adjacent_witness:
  "list_of example_1122231 0 [(20, 1), (21, 1), (22, 2), (23, 2), (24, 2), (25, 3), (26, 1)] \<and>
   (\<exists>s'. unique 0 example_1122231 = Some (Inr s') \<and>
      list_of s' 0 [(20, 1), (22, 2), (25, 3), (26, 1)] \<and>
      iterate 0 s' = Some (Inr [1, 2, 3, 1]) \<and>
      nodes s' 21 = None \<and> nodes s' 23 = None \<and> nodes s' 24 = None)"
proof -
  have l: "list_of example_1122231 0
      [(20, 1), (21, 1), (22, 2), (23, 2), (24, 2), (25, 3), (26, 1)]"
    by (simp add: list_of_def example_1122231_def)
  from unique_adjacent [OF l] l
  show ?thesis by (auto simp: unique_spec_def)
qed

subsection \<open>\<open>clear\<close> and copying\<close>












subsection \<open>\<open>merge\<close>\<close>

lemma mset_merge_lists: "mset (merge_lists xs ys) = mset xs + mset ys"
  by (induction xs ys rule: merge_lists.induct) auto

lemma set_merge_lists: "set (merge_lists xs ys) = set xs \<union> set ys"
  using mset_merge_lists [of xs ys] by (metis set_mset_mset set_mset_union)

lemma sorted_merge_lists:
  fixes xs ys :: "('b \<times> 'a::linorder) list"
  shows "sorted (map snd xs) \<Longrightarrow> sorted (map snd ys) \<Longrightarrow>
    sorted (map snd (merge_lists xs ys))"
proof (induction xs ys rule: merge_lists.induct)
  case (1 ys)
  then show ?case by simp
next
  case (2 x xs)
  then show ?case by simp
next
  case (3 x xs y ys)
  show ?case
  proof (cases "snd x < snd y")
    case True
    have "sorted (map snd (merge_lists xs (y # ys)))"
      using "3.IH"(1) [OF True] "3.prems" by simp
    moreover have "\<forall>z\<in>set (merge_lists xs (y # ys)). snd x \<le> snd z"
      using "3.prems" True by (auto simp: set_merge_lists)
    ultimately show ?thesis using True by simp
  next
    case False
    then have "sorted (map snd (y # x # xs))" using "3.prems"(1) by auto
    moreover have "sorted (map snd ys)" using "3.prems"(2) by simp
    ultimately show ?thesis using "3.IH"(2) [OF False] False by simp
  qed
qed

lemma before_in_set: "before a b zs \<Longrightarrow> b \<in> set zs"
  by (induction zs) (auto split: if_splits)

lemma before_merge_lists: "before a b xs \<Longrightarrow> before a b (merge_lists xs ys)"
proof (induction xs ys rule: merge_lists.induct)
  case (1 ys)
  then show ?case by simp
next
  case (2 x xs)
  then show ?case by simp
next
  case (3 x xs y ys)
  show ?case
  proof (cases "snd x < snd y")
    case True
    show ?thesis
    proof (cases "x = a")
      case xa: True
      then have "b \<in> set xs" using "3.prems" by simp
      then show ?thesis using True xa by (simp add: set_merge_lists)
    next
      case xa: False
      then have "before a b xs" using "3.prems" by simp
      from "3.IH"(1) [OF True this] show ?thesis using True xa by simp
    qed
  next
    case False
    have "before a b (y # x # xs)"
      using "3.prems" before_in_set [OF "3.prems"] by simp
    from "3.IH"(2) [OF False this] show ?thesis using False by simp
  qed
qed

lemma argument_first:
  fixes xs ys :: "('b \<times> 'a::linorder) list"
  shows "sorted (map snd xs) \<Longrightarrow> sorted (map snd ys) \<Longrightarrow> distinct (xs @ ys) \<Longrightarrow>
    x' \<in> set xs \<Longrightarrow> y' \<in> set ys \<Longrightarrow> snd x' = snd y' \<Longrightarrow>
    before y' x' (merge_lists xs ys)"
proof (induction xs ys rule: merge_lists.induct)
  case (1 ys)
  then show ?case by simp
next
  case (2 x xs)
  then show ?case by simp
next
  case (3 x xs y ys)
  show ?case
  proof (cases "snd x < snd y")
    case True
    have "snd y \<le> snd y'" using "3.prems"(2,5) by auto
    then have "x' \<noteq> x" using True "3.prems"(6) by auto
    then have x': "x' \<in> set xs" using "3.prems"(4) by simp
    have "before y' x' (merge_lists xs (y # ys))"
      using "3.IH"(1) [OF True _ _ _ x' "3.prems"(5,6)] "3.prems"(1,2,3) by simp
    moreover have "x \<noteq> y'" using "3.prems"(3,5) by auto
    ultimately show ?thesis using True by simp
  next
    case False
    have s1: "sorted (map snd (y # x # xs))" using "3.prems"(1) False by auto
    have s2: "sorted (map snd ys)" using "3.prems"(2) by simp
    have d: "distinct ((y # x # xs) @ ys)" using "3.prems"(3) by auto
    show ?thesis
    proof (cases "y' = y")
      case yy: True
      have "before y x' (y # x # xs)" using "3.prems"(4) by simp
      then have "before y x' (merge_lists (y # x # xs) ys)" by (rule before_merge_lists)
      then show ?thesis using False yy by simp
    next
      case yy: False
      then have y': "y' \<in> set ys" using "3.prems"(5) by simp
      have x': "x' \<in> set (y # x # xs)" using "3.prems"(4) by simp
      from "3.IH"(2) [OF False s1 s2 d x' y' "3.prems"(6)] show ?thesis using False by simp
    qed
  qed
qed

lemma merge_merge_from: "merge this other s = merge_from other (Head_of this) s"
  by (simp add: merge_def merge_from_def)

lemma merge_from_end:
  assumes "load pos s = Inr None"
  shows "merge_from other pos s =
     (case head s other of
        None \<Rightarrow> Some (Inr s)
      | Some oh \<Rightarrow>
          (case store pos (Some oh) s of
             Inl e \<Rightarrow> Some (Inl e)
           | Inr s2 \<Rightarrow> Some (Inr (s2\<lparr>head := (head s2)(other := None)\<rparr>))))"
  unfolding merge_from_def
  apply (subst merge_loop.simps)
  apply (simp add: assms)
  done

lemma merge_from_other_empty:
  assumes "load pos s = Inr (Some p)" and "head s other = None"
  shows "merge_from other pos s = Some (Inr s)"
  unfolding merge_from_def
  apply (subst merge_loop.simps)
  apply (simp add: assms)
  done

lemma merge_from_advance:
  assumes "load pos s = Inr (Some p)" and "head s other = Some oh"
    and "nodes s p = Some pn" and "nodes s oh = Some on" and "value pn < value on"
  shows "merge_from other pos s = merge_from other (Next_of p) s"
  unfolding merge_from_def
  apply (subst merge_loop.simps)
  apply (simp add: assms)
  done

lemma merge_from_insert:
  assumes "load pos s = Inr (Some p)" and "head s other = Some oh"
    and "nodes s p = Some pn" and "nodes s oh = Some on" and "\<not> value pn < value on"
    and "load pos (s\<lparr>head := (head s)(other := next on)\<rparr>) = Inr q"
    and "set_next oh q (s\<lparr>head := (head s)(other := next on)\<rparr>) = Inr s2"
    and "store pos (Some oh) s2 = Inr s3"
  shows "merge_from other pos s = merge_from other pos s3"
  unfolding merge_from_def
  apply (subst merge_loop.simps)
  apply (simp add: assms(1-5))
  apply (simp add: Let_def assms(6-8))
  done

lemma load_self:
  "load pos s = Inr p \<Longrightarrow>
   \<forall>a. pos = Next_of a \<longrightarrow> (\<exists>m. nodes s a = Some m \<and> nodes s a = Some (m\<lparr>next := p\<rparr>))"
  by (auto simp: load_def split: option.splits)

lemma outside_Cons: "outside pos (x # xs) \<longleftrightarrow> pos \<noteq> Next_of (fst x) \<and> outside pos xs"
  by (auto simp: outside_def)

lemma merge_from_chain:
  fixes s :: "'a::ord state"
  shows "load pos s = Inr p \<Longrightarrow> chain (nodes s) p xs \<Longrightarrow>
   chain (nodes s) (head s other) ys \<Longrightarrow>
   fst ` set xs \<inter> fst ` set ys = {} \<Longrightarrow> outside pos xs \<Longrightarrow> outside pos ys \<Longrightarrow>
   pos \<noteq> Head_of other \<Longrightarrow>
   \<exists>s' p'. merge_from other pos s = Some (Inr s') \<and> load pos s' = Inr p' \<and>
     chain (nodes s') p' (merge_lists xs ys) \<and> head s' other = None \<and>
     (\<forall>l. l \<noteq> other \<and> pos \<noteq> Head_of l \<longrightarrow> head s' l = head s l) \<and>
     (\<forall>a. a \<notin> fst ` set xs \<and> a \<notin> fst ` set ys \<and> pos \<noteq> Next_of a \<longrightarrow>
        nodes s' a = nodes s a) \<and>
     (\<forall>a. pos = Next_of a \<longrightarrow> (\<exists>m. nodes s a = Some m \<and> nodes s' a = Some (m\<lparr>next := p'\<rparr>)))"
proof (induction xs ys arbitrary: pos s p rule: merge_lists.induct)
  case (1 ys)
  from "1.prems"(2) have p: "p = None" by simp
  then have l: "load pos s = Inr None" using "1.prems"(1) by simp
  show ?case
  proof (cases ys)
    case Nil
    then have ho: "head s other = None" using "1.prems"(3) by simp
    have "merge_from other pos s = Some (Inr s)"
      using merge_from_end [OF l, of other] ho by simp
    moreover have "chain (nodes s) None (merge_lists [] ys)" using Nil by simp
    ultimately show ?thesis using l ho load_self [OF l] by blast
  next
    case (Cons y ys')
    obtain b w where y: "y = (b, w)" by (cases y)
    from "1.prems"(3) Cons y have ho: "head s other = Some b" by simp
    from store_effect [OF l, of "Some b"] obtain s2 where
      st: "store pos (Some b) s = Inr s2" and l2: "load pos s2 = Inr (Some b)"
      and n2: "\<forall>a. pos \<noteq> Next_of a \<longrightarrow> nodes s2 a = nodes s a"
      and m2: "\<forall>a. pos = Next_of a \<longrightarrow>
                 (\<exists>m. nodes s a = Some m \<and> nodes s2 a = Some (m\<lparr>next := Some b\<rparr>))"
      and h2: "\<forall>l. pos \<noteq> Head_of l \<longrightarrow> head s2 l = head s l"
      by blast
    define s' where "s' = s2\<lparr>head := (head s2)(other := None)\<rparr>"
    have n': "nodes s' = nodes s2" and h': "head s' = (head s2)(other := None)"
      by (simp_all add: s'_def)
    have r: "merge_from other pos s = Some (Inr s')"
      using merge_from_end [OF l, of other] ho st by (simp add: s'_def)
    have l': "load pos s' = Inr (Some b)"
    proof -
      have "load pos s' = load pos s2"
        using "1.prems"(7) by (intro load_frame) (auto simp: n' h')
      then show ?thesis using l2 by simp
    qed
    have c': "chain (nodes s') (Some b) (merge_lists [] ys)"
    proof -
      have "chain (nodes s') (Some b) ys = chain (nodes s) (Some b) ys"
      proof (rule chain_frame)
        fix a assume "a \<in> fst ` set ys"
        then have "pos \<noteq> Next_of a" using "1.prems"(6) by (auto simp: outside_def)
        then show "nodes s' a = nodes s a" using n2 n' by simp
      qed
      then show ?thesis using "1.prems"(3) ho by simp
    qed
    have "head s' other = None" by (simp add: h')
    moreover have "\<forall>l. l \<noteq> other \<and> pos \<noteq> Head_of l \<longrightarrow> head s' l = head s l"
      using h2 by (simp add: h')
    moreover have "\<forall>a. a \<notin> fst ` set [] \<and> a \<notin> fst ` set ys \<and> pos \<noteq> Next_of a \<longrightarrow>
        nodes s' a = nodes s a"
      using n2 n' by simp
    moreover have "\<forall>a. pos = Next_of a \<longrightarrow>
        (\<exists>m. nodes s a = Some m \<and> nodes s' a = Some (m\<lparr>next := Some b\<rparr>))"
      using m2 n' by simp
    ultimately show ?thesis using r l' c' by blast
  qed
next
  case (2 x xs)
  obtain c v where x: "x = (c, v)" by (cases x)
  from "2.prems"(2) x have p: "p = Some c" by simp
  from "2.prems"(3) have ho: "head s other = None" by simp
  have l: "load pos s = Inr (Some c)" using "2.prems"(1) p by simp
  have "merge_from other pos s = Some (Inr s)"
    using l ho by (rule merge_from_other_empty)
  moreover have "chain (nodes s) (Some c) (merge_lists (x # xs) [])"
    using "2.prems"(2) p by simp
  ultimately show ?case using l ho load_self [OF l] by blast
next
  case (3 x xs y ys)
  obtain c v where x: "x = (c, v)" by (cases x)
  obtain b w where y: "y = (b, w)" by (cases y)
  from "3.prems"(2) x obtain pn where p: "p = Some c" and pn: "nodes s c = Some pn"
    and v: "value pn = v" and xs: "chain (nodes s) (next pn) xs"
    by auto
  from "3.prems"(3) y obtain on where ho: "head s other = Some b" and on: "nodes s b = Some on"
    and w: "value on = w" and ys: "chain (nodes s) (next on) ys"
    by auto
  have l: "load pos s = Inr (Some c)" using "3.prems"(1) p by simp
  have c_xs: "c \<notin> fst ` set xs" using pn xs by (rule chain_head_notin_tail)
  have b_ys: "b \<notin> fst ` set ys" using on ys by (rule chain_head_notin_tail)
  have c_ys: "c \<notin> fst ` set (y # ys)" and b_xs: "b \<notin> fst ` set (x # xs)"
    using "3.prems"(4) x y by auto
  have c_b: "c \<noteq> b" using c_ys y by auto
  have pos_c: "pos \<noteq> Next_of c" and pos_xs: "outside pos xs"
    using "3.prems"(5) x by (simp_all add: outside_Cons)
  have pos_b: "pos \<noteq> Next_of b" and pos_ys: "outside pos ys"
    using "3.prems"(6) y by (simp_all add: outside_Cons)
  show ?case
  proof (cases "v < w")
    case True
    have adv: "merge_from other pos s = merge_from other (Next_of c) s"
      using l ho pn on by (rule merge_from_advance) (simp add: v w True)
    have l1: "load (Next_of c) s = Inr (next pn)" using pn by (simp add: load_def)
    have d1: "fst ` set xs \<inter> fst ` set (y # ys) = {}" using "3.prems"(4) by auto
    have o1: "outside (Next_of c) xs" using c_xs by (simp add: outside_def)
    have o2: "outside (Next_of c) (y # ys)" using c_ys by (simp add: outside_def)
    have lt: "snd x < snd y" using True x y by simp
    from "3.IH"(1) [OF lt l1 xs "3.prems"(3) d1 o1 o2] obtain s' p' where
      r: "merge_from other (Next_of c) s = Some (Inr s')"
      and l': "load (Next_of c) s' = Inr p'"
      and c': "chain (nodes s') p' (merge_lists xs (y # ys))"
      and ho': "head s' other = None"
      and h': "\<forall>l. l \<noteq> other \<and> Next_of c \<noteq> Head_of l \<longrightarrow> head s' l = head s l"
      and n': "\<forall>a. a \<notin> fst ` set xs \<and> a \<notin> fst ` set (y # ys) \<and> Next_of c \<noteq> Next_of a \<longrightarrow>
        nodes s' a = nodes s a"
      and m': "\<forall>a. Next_of c = Next_of a \<longrightarrow>
        (\<exists>m. nodes s a = Some m \<and> nodes s' a = Some (m\<lparr>next := p'\<rparr>))"
      by blast
    have nc': "nodes s' c = Some (pn\<lparr>next := p'\<rparr>)" using m' pn by auto
    have lp: "load pos s' = Inr (Some c)"
    proof -
      have "load pos s' = load pos s"
      proof (rule load_frame)
        show "\<forall>a. pos = Next_of a \<longrightarrow> nodes s' a = nodes s a"
          using n' "3.prems"(5,6) pos_c by (auto simp: outside_def)
        show "\<forall>l. pos = Head_of l \<longrightarrow> head s' l = head s l"
          using h' "3.prems"(7) by auto
      qed
      then show ?thesis using l by simp
    qed
    have cc: "chain (nodes s') (Some c) (merge_lists (x # xs) (y # ys))"
      using c' nc' v lt x by simp
    have f1: "\<forall>l. l \<noteq> other \<and> pos \<noteq> Head_of l \<longrightarrow> head s' l = head s l"
      using h' by simp
    have f2: "\<forall>a. a \<notin> fst ` set (x # xs) \<and> a \<notin> fst ` set (y # ys) \<and> pos \<noteq> Next_of a \<longrightarrow>
        nodes s' a = nodes s a"
      using n' x by auto
    have f3: "\<forall>a. pos = Next_of a \<longrightarrow>
        (\<exists>m. nodes s a = Some m \<and> nodes s' a = Some (m\<lparr>next := Some c\<rparr>))"
    proof (intro allI impI)
      fix a assume a: "pos = Next_of a"
      then have "nodes s' a = nodes s a"
        using n' "3.prems"(5,6) pos_c by (auto simp: outside_def)
      then show "\<exists>m. nodes s a = Some m \<and> nodes s' a = Some (m\<lparr>next := Some c\<rparr>)"
        using load_self [OF l] a by auto
    qed
    have r': "merge_from other pos s = Some (Inr s')" using adv r by simp
    show ?thesis
      by (intro exI [of _ s'] exI [of _ "Some c"] conjI) (rule r' lp cc ho' f1 f2 f3)+
  next
    case False
    define s1 where "s1 = s\<lparr>head := (head s)(other := next on)\<rparr>"
    have n1: "nodes s1 = nodes s" and h1: "head s1 = (head s)(other := next on)"
      by (simp_all add: s1_def)
    have l1: "load pos s1 = Inr (Some c)"
    proof -
      have "load pos s1 = load pos s"
        using "3.prems"(7) by (intro load_frame) (auto simp: n1 h1)
      then show ?thesis using l by simp
    qed
    define s2 where "s2 = s1\<lparr>nodes := (nodes s1)(b \<mapsto> on\<lparr>next := Some c\<rparr>)\<rparr>"
    have n2: "nodes s2 = (nodes s)(b \<mapsto> on\<lparr>next := Some c\<rparr>)" and h2: "head s2 = head s1"
      by (simp_all add: s2_def n1)
    have sn: "set_next b (Some c) s1 = Inr s2"
      using on by (simp add: set_next_def n1 s2_def)
    have l2: "load pos s2 = Inr (Some c)"
    proof -
      have "load pos s2 = load pos s1"
        using pos_b by (intro load_frame) (auto simp: n2 n1 h2)
      then show ?thesis using l1 by simp
    qed
    from store_effect [OF l2, of "Some b"] obtain s3 where
      st: "store pos (Some b) s2 = Inr s3" and l3: "load pos s3 = Inr (Some b)"
      and n3: "\<forall>a. pos \<noteq> Next_of a \<longrightarrow> nodes s3 a = nodes s2 a"
      and m3: "\<forall>a. pos = Next_of a \<longrightarrow>
                 (\<exists>m. nodes s2 a = Some m \<and> nodes s3 a = Some (m\<lparr>next := Some b\<rparr>))"
      and h3: "\<forall>l. pos \<noteq> Head_of l \<longrightarrow> head s3 l = head s2 l"
      by blast
    have ins: "merge_from other pos s = merge_from other pos s3"
    proof (rule merge_from_insert [OF l ho pn on])
      show "\<not> value pn < value on" using False v w by simp
      show "load pos (s\<lparr>head := (head s)(other := next on)\<rparr>) = Inr (Some c)"
        using l1 by (simp add: s1_def)
      show "set_next b (Some c) (s\<lparr>head := (head s)(other := next on)\<rparr>) = Inr s2"
        using sn by (simp add: s1_def)
      show "store pos (Some b) s2 = Inr s3" by (rule st)
    qed
    have same: "\<And>a. a \<noteq> b \<Longrightarrow> pos \<noteq> Next_of a \<Longrightarrow> nodes s3 a = nodes s a"
      using n3 n2 by simp
    have nb3: "nodes s3 b = Some (on\<lparr>next := Some c\<rparr>)" using n3 pos_b n2 by simp
    have xs3: "chain (nodes s3) (Some c) (x # xs)"
    proof -
      have "chain (nodes s3) (Some c) (x # xs) = chain (nodes s) (Some c) (x # xs)"
      proof (rule chain_frame)
        fix a assume a: "a \<in> fst ` set (x # xs)"
        then have "a \<noteq> b" using b_xs by auto
        moreover have "pos \<noteq> Next_of a" using a "3.prems"(5) by (auto simp: outside_def)
        ultimately show "nodes s3 a = nodes s a" by (rule same)
      qed
      then show ?thesis using "3.prems"(2) p by simp
    qed
    have c3: "chain (nodes s3) (Some b) (y # x # xs)"
      using xs3 nb3 w y by simp
    have ho3: "head s3 other = next on"
      using h3 "3.prems"(7) by (simp add: h2 h1)
    have ys3: "chain (nodes s3) (head s3 other) ys"
    proof -
      have "chain (nodes s3) (next on) ys = chain (nodes s) (next on) ys"
      proof (rule chain_frame)
        fix a assume a: "a \<in> fst ` set ys"
        then have "a \<noteq> b" using b_ys by auto
        moreover have "pos \<noteq> Next_of a" using a pos_ys by (auto simp: outside_def)
        ultimately show "nodes s3 a = nodes s a" by (rule same)
      qed
      then show ?thesis using ys ho3 by simp
    qed
    have d3: "fst ` set (y # x # xs) \<inter> fst ` set ys = {}"
      using "3.prems"(4) b_ys y by auto
    have o3: "outside pos (y # x # xs)"
      using "3.prems"(5) pos_b y by (simp add: outside_Cons)
    have nlt: "\<not> snd x < snd y" using False x y by simp
    from "3.IH"(2) [OF nlt l3 c3 ys3 d3 o3 pos_ys "3.prems"(7)] obtain s' p' where
      r: "merge_from other pos s3 = Some (Inr s')"
      and l': "load pos s' = Inr p'"
      and c': "chain (nodes s') p' (merge_lists (y # x # xs) ys)"
      and ho': "head s' other = None"
      and h': "\<forall>l. l \<noteq> other \<and> pos \<noteq> Head_of l \<longrightarrow> head s' l = head s3 l"
      and n': "\<forall>a. a \<notin> fst ` set (y # x # xs) \<and> a \<notin> fst ` set ys \<and> pos \<noteq> Next_of a \<longrightarrow>
        nodes s' a = nodes s3 a"
      and m': "\<forall>a. pos = Next_of a \<longrightarrow>
        (\<exists>m. nodes s3 a = Some m \<and> nodes s' a = Some (m\<lparr>next := p'\<rparr>))"
      by blast
    have cc: "chain (nodes s') p' (merge_lists (x # xs) (y # ys))"
      using c' nlt by simp
    have f1: "\<forall>l. l \<noteq> other \<and> pos \<noteq> Head_of l \<longrightarrow> head s' l = head s l"
      using h' h3 by (simp add: h2 h1)
    have f2: "\<forall>a. a \<notin> fst ` set (x # xs) \<and> a \<notin> fst ` set (y # ys) \<and> pos \<noteq> Next_of a \<longrightarrow>
        nodes s' a = nodes s a"
    proof (intro allI impI)
      fix a
      assume a: "a \<notin> fst ` set (x # xs) \<and> a \<notin> fst ` set (y # ys) \<and> pos \<noteq> Next_of a"
      then have "a \<noteq> b" using y by auto
      with a have "nodes s3 a = nodes s a" by (intro same) auto
      moreover have "nodes s' a = nodes s3 a" using n' a by auto
      ultimately show "nodes s' a = nodes s a" by simp
    qed
    have f3: "\<forall>a. pos = Next_of a \<longrightarrow>
        (\<exists>m. nodes s a = Some m \<and> nodes s' a = Some (m\<lparr>next := p'\<rparr>))"
    proof (intro allI impI)
      fix a assume a: "pos = Next_of a"
      then have ab: "a \<noteq> b" using pos_b by auto
      from m3 a obtain m where m: "nodes s2 a = Some m" "nodes s3 a = Some (m\<lparr>next := Some b\<rparr>)"
        by blast
      from m(1) ab have ms: "nodes s a = Some m" by (simp add: n2)
      from m' a obtain m2 where m2: "nodes s3 a = Some m2" "nodes s' a = Some (m2\<lparr>next := p'\<rparr>)"
        by blast
      from m(2) m2(1) have "m2 = m\<lparr>next := Some b\<rparr>" by simp
      then show "\<exists>m. nodes s a = Some m \<and> nodes s' a = Some (m\<lparr>next := p'\<rparr>)"
        using ms m2(2) by simp
    qed
    have r': "merge_from other pos s = Some (Inr s')" using ins r by simp
    show ?thesis
      by (intro exI [of _ s'] exI [of _ p'] conjI) (rule r' l' cc ho' f1 f2 f3)+
  qed
qed

lemma merge_chain:
  fixes s :: "'a::ord state"
  assumes ne: "this \<noteq> other"
    and xs: "chain (nodes s) (head s this) xs" and ys: "chain (nodes s) (head s other) ys"
    and dis: "fst ` set xs \<inter> fst ` set ys = {}"
  shows "\<exists>s'. merge this other s = Some (Inr s') \<and>
     chain (nodes s') (head s' this) (merge_lists xs ys) \<and> head s' other = None \<and>
     (\<forall>l. l \<noteq> other \<and> l \<noteq> this \<longrightarrow> head s' l = head s l) \<and>
     (\<forall>a. a \<notin> fst ` set xs \<and> a \<notin> fst ` set ys \<longrightarrow> nodes s' a = nodes s a)"
proof -
  have l: "load (Head_of this) s = Inr (head s this)" by (simp add: load_def)
  have o1: "outside (Head_of this) xs" and o2: "outside (Head_of this) ys"
    by (simp_all add: outside_def)
  have p: "Head_of this \<noteq> Head_of other" using ne by simp
  from merge_from_chain [OF l xs ys dis o1 o2 p] obtain s' p' where
    "merge_from other (Head_of this) s = Some (Inr s')" "load (Head_of this) s' = Inr p'"
    "chain (nodes s') p' (merge_lists xs ys)" "head s' other = None"
    "\<forall>l. l \<noteq> other \<and> Head_of this \<noteq> Head_of l \<longrightarrow> head s' l = head s l"
    "\<forall>a. a \<notin> fst ` set xs \<and> a \<notin> fst ` set ys \<and> Head_of this \<noteq> Next_of a \<longrightarrow>
        nodes s' a = nodes s a"
    by blast
  then show ?thesis by (auto simp: merge_merge_from load_def)
qed

text \<open>
  C2.  Let \<open>this\<close> and \<open>other\<close> be two different well-formed lists that share no node,
  both sorted ascending.  Then \<open>merge\<close> returns normally; \<open>this\<close> holds a chain that is
  sorted ascending and consists of exactly the nodes of both lists, and iterates as the
  values of that chain; and \<open>other\<close> is empty.  For \<open>[1,3,5]\<close> and \<open>[2,3,4]\<close> the result is \<open>[1,2,3,3,4,5]\<close>.
\<close>

theorem merge_sorted:
  fixes s :: "'a::linorder state"
  assumes "this \<noteq> other" and "list_of s this xs" and "list_of s other ys"
    and "fst ` set xs \<inter> fst ` set ys = {}"
    and "sorted (map snd xs)" and "sorted (map snd ys)"
  shows "\<exists>s' zs. merge this other s = Some (Inr s') \<and> list_of s' this zs \<and>
           iterate this s' = Some (Inr (map snd zs)) \<and>
           sorted (map snd zs) \<and> mset zs = mset xs + mset ys \<and> empty other s'"
proof -
  from merge_chain [OF assms(1) _ _ assms(4), of s] assms(2,3) obtain s' where
    "merge this other s = Some (Inr s')"
    "chain (nodes s') (head s' this) (merge_lists xs ys)" "head s' other = None"
    by (auto simp: list_of_def)
  moreover have "sorted (map snd (merge_lists xs ys))"
    using assms(5,6) by (rule sorted_merge_lists)
  moreover have "mset (merge_lists xs ys) = mset xs + mset ys" by (rule mset_merge_lists)
  ultimately show ?thesis
    by (intro exI [of _ s'] exI [of _ "merge_lists xs ys"])
      (simp add: iterate_list_of list_of_def empty_def)
qed

theorem merge_sorted_witness:
  "(0::nat) \<noteq> 1 \<and> list_of example_merge 0 [(50, 1), (51, 3), (52, 5)] \<and>
   list_of example_merge 1 [(60, 2), (61, 3), (62, 4)] \<and>
   sorted [1, 3, 5 :: int] \<and> sorted [2, 3, 4 :: int] \<and>
   (\<exists>s' zs. merge 0 1 example_merge = Some (Inr s') \<and> list_of s' 0 zs \<and>
      iterate 0 s' = Some (Inr (map snd zs)) \<and> sorted (map snd zs) \<and>
      mset zs = mset [(50, 1), (51, 3), (52, 5)] + mset [(60, 2), (61, 3), (62, 4)] \<and>
      empty 1 s') \<and>
   merge 0 1 example_merge = Some (Inr example_merged) \<and>
   list_of example_merged 0 [(50, 1), (60, 2), (61, 3), (51, 3), (62, 4), (52, 5)] \<and>
   iterate 0 example_merged = Some (Inr [1, 2, 3, 3, 4, 5]) \<and>
   empty 1 example_merged"
proof -
  have ne: "(0::nat) \<noteq> 1" by simp
  have l0: "list_of example_merge 0 [(50, 1), (51, 3), (52, 5)]"
    by (simp add: list_of_def example_merge_def)
  have l1: "list_of example_merge 1 [(60, 2), (61, 3), (62, 4)]"
    by (simp add: list_of_def example_merge_def)
  have d: "fst ` set [(50::nat, 1::int), (51, 3), (52, 5)] \<inter>
      fst ` set [(60, 2), (61, 3), (62, 4)] = {}"
    by simp
  have s0: "sorted (map snd [(50::nat, 1::int), (51, 3), (52, 5)])" by simp
  have s1: "sorted (map snd [(60::nat, 2::int), (61, 3), (62, 4)])" by simp
  have m: "merge 0 1 example_merge = Some (Inr example_merged)"
    by (simp add: merge_def merge_loop.simps load_def store_def set_next_def
        example_merge_def example_merged_def fun_eq_iff)
  have lm: "list_of example_merged 0 [(50, 1), (60, 2), (61, 3), (51, 3), (62, 4), (52, 5)]"
    by (simp add: list_of_def example_merged_def)
  have e: "empty 1 example_merged" by (simp add: empty_def example_merged_def)
  from iterate_list_of [OF lm]
  have im: "iterate 0 example_merged = Some (Inr [1, 2, 3, 3, 4, 5])" by simp
  from merge_sorted [OF ne l0 l1 d s0 s1] ne l0 l1 m lm im e show ?thesis by simp
qed

text \<open>
  C3, as amended.  Under the same hypotheses, whenever a node of the receiver and a node
  of the argument list carry equal values, the node of the argument list precedes the node
  of the receiver in the merged chain: \<open>merge\<close> advances only past strictly smaller
  values, so the argument's node is linked in front of an equal node.
\<close>

theorem merge_ties_argument_first:
  fixes s :: "'a::linorder state"
  assumes "this \<noteq> other" and "list_of s this xs" and "list_of s other ys"
    and "fst ` set xs \<inter> fst ` set ys = {}"
    and "sorted (map snd xs)" and "sorted (map snd ys)"
  shows "\<exists>s' zs. merge this other s = Some (Inr s') \<and> list_of s' this zs \<and>
           (\<forall>x\<in>set xs. \<forall>y\<in>set ys. snd x = snd y \<longrightarrow> before y x zs)"
proof -
  from assms(2,3) have xs: "chain (nodes s) (head s this) xs"
    and ys: "chain (nodes s) (head s other) ys"
    by (simp_all add: list_of_def)
  from merge_chain [OF assms(1) xs ys assms(4)] obtain s' where
    m: "merge this other s = Some (Inr s')"
    "chain (nodes s') (head s' this) (merge_lists xs ys)"
    by blast
  have "distinct (map fst xs)" "distinct (map fst ys)"
    using xs ys by (auto dest: chain_distinct)
  then have "distinct xs" "distinct ys" by (simp_all add: distinct_map)
  moreover have "set xs \<inter> set ys = {}" using assms(4) by auto
  ultimately have d: "distinct (xs @ ys)" by simp
  have "\<forall>x\<in>set xs. \<forall>y\<in>set ys. snd x = snd y \<longrightarrow> before y x (merge_lists xs ys)"
    using argument_first [OF assms(5,6) d] by blast
  with m show ?thesis
    by (intro exI [of _ s'] exI [of _ "merge_lists xs ys"]) (simp add: list_of_def)
qed

theorem merge_ties_argument_first_witness:
  "(0::nat) \<noteq> 1 \<and> list_of example_merge 0 [(50, 1), (51, 3), (52, 5)] \<and>
   list_of example_merge 1 [(60, 2), (61, 3), (62, 4)] \<and>
   sorted [1, 3, 5 :: int] \<and> sorted [2, 3, 4 :: int] \<and>
   (\<exists>s' zs. merge 0 1 example_merge = Some (Inr s') \<and> list_of s' 0 zs \<and>
      before (61, 3) (51, 3) zs)"
proof -
  have ne: "(0::nat) \<noteq> 1" by simp
  have l0: "list_of example_merge 0 [(50, 1), (51, 3), (52, 5)]"
    by (simp add: list_of_def example_merge_def)
  have l1: "list_of example_merge 1 [(60, 2), (61, 3), (62, 4)]"
    by (simp add: list_of_def example_merge_def)
  have d: "fst ` set [(50::nat, 1::int), (51, 3), (52, 5)] \<inter>
      fst ` set [(60, 2), (61, 3), (62, 4)] = {}"
    by simp
  have s0: "sorted (map snd [(50::nat, 1::int), (51, 3), (52, 5)])" by simp
  have s1: "sorted (map snd [(60::nat, 2::int), (61, 3), (62, 4)])" by simp
  from merge_ties_argument_first [OF ne l0 l1 d s0 s1] ne l0 l1 show ?thesis by simp
qed

text \<open>
  C3, as stated, fails: merging \<open>[1,3,5]\<close> with \<open>[2,3,4]\<close> puts the argument's node of
  value 3 (address 61) in front of the receiver's node of value 3 (address 51).
\<close>

theorem merge_ties_counterexample:
  "list_of example_merge 0 [(50, 1), (51, 3), (52, 5)] \<and>
   list_of example_merge 1 [(60, 2), (61, 3), (62, 4)] \<and>
   merge 0 1 example_merge = Some (Inr example_merged) \<and>
   list_of example_merged 0 [(50, 1), (60, 2), (61, 3), (51, 3), (62, 4), (52, 5)] \<and>
   \<not> before (51 :: addr, 3 :: int) (61, 3)
       [(50, 1), (60, 2), (61, 3), (51, 3), (62, 4), (52, 5)]"
  by (simp add: merge_def merge_loop.simps load_def store_def set_next_def list_of_def
      example_merge_def example_merged_def fun_eq_iff)

subsection \<open>\<open>emplace_front\<close>\<close>

text \<open>
  C4 does not hold of the code.  A pack that starts with an argument for a constructor of
  the element type, such as the single value \<open>5\<close> for a list of integers, has no viable
  \<open>fwd_list_node\<close> constructor: the call is ill-formed and no element is put in front.
  \<open>push_front\<close> with the same value does put it in front.
\<close>

theorem emplace_front_value_argument:
  "emplace_front alloc dflt this (Value_arg b # args) s = Inl IllFormed \<and>
   emplace_front (first_fit 4) 0 0 [Value_arg (5::int)] empty_state = Inl IllFormed \<and>
   (\<exists>s'. push_front (first_fit 4) 0 5 empty_state = Inr s' \<and> front 0 s' = Inr 5)"
  by (simp add: emplace_front_def node_construct_def push_front_def create_node_def
      allocate_node_def set_next_def first_fit_def upt_conv_Cons front_def empty_state_def)

subsection \<open>Preservation of the structural invariant\<close>






lemma proper_invariant_after: "proper r \<Longrightarrow> invariant_after r"
  by (cases r rule: proper.cases) simp_all




























text \<open>Merging a non-empty list into itself never returns.\<close>

lemma self_merge_loop_diverges:
  fixes s :: "'a::preorder state"
  assumes "merge_loop other pos s = Some y"
  shows "\<not> (pos = Head_of other \<and> (\<exists>a n. head s other = Some a \<and> nodes s a = Some n))"
proof (rule merge_loop.raw_induct [where P = "\<lambda>other pos s y.
    \<not> (pos = Head_of other \<and> (\<exists>a n. head s other = Some a \<and> nodes s a = Some n))",
    OF _ assms], goal_cases)
  case (1 f other pos s y)
  show ?case
  proof
    assume "pos = Head_of other \<and> (\<exists>a n. head s other = Some a \<and> nodes s a = Some n)"
    then obtain a n where pos: "pos = Head_of other" and h: "head s other = Some a"
      and n: "nodes s a = Some n"
      by blast
    have "f other pos
        (s\<lparr>nodes := (nodes s)(a \<mapsto> n), head := (head s)(other \<mapsto> a)\<rparr>) = Some y"
      using 1(2) by (simp add: pos h n load_def store_def set_next_def Let_def)
    from 1(1) [OF this] show False by (simp add: pos)
  qed
qed



lemma merge_self_never_returns:
  fixes s :: "'a::preorder state"
  assumes "head s this = Some a" and "nodes s a = Some n"
  shows "merge this this s = None"
proof (cases "merge_loop this (Head_of this) s")
  case None
  then show ?thesis by (simp add: merge_def)
next
  case (Some y)
  from self_merge_loop_diverges [OF this] assms show ?thesis by simp
qed

















end
